theory Spec2Isabelle
  imports Main "HOL-Library.Word"
begin

unbundle bit_operations_syntax

chapter \<open>The Arraigo ETL: a shallow embedding of \<^verbatim>\<open>scripts/arraigo_etl.py\<close>\<close>

text \<open>
  The script ingests registry documents (BORME) and regional listings into four tables
  (companies, events, signals, scores) and recomputes a score per company. The embedding
  follows the script function by function and keeps its names.

  Conventions of the embedding:
  \<^item> A Python \<^verbatim>\<open>str\<close> is a list of code points. The type \<^typ>\<open>char\<close> has 256 values,
    read here as the code points U+0000 to U+00FF (Latin-1), which cover every constant
    of the script (keyword patterns, region names, notes) and Spanish text. Strings with
    code points beyond U+00FF are outside the model.
  \<^item> An exception is an element of the type \<open>error\<close>; a function that may raise returns a sum,
    \<open>Inl\<close> carrying the error.
  \<^item> The database cursor is an explicit state of type \<open>db\<close>; the services the script
    calls over the network (HTTP, PDF extraction, the clock) are fields of a record
    \<open>env\<close> and every theorem holds for all of them.
  \<^item> \<^verbatim>\<open>print\<close> appends a line to a log.
\<close>

section \<open>Helpers: \<^verbatim>\<open>norm_text\<close>\<close>

text \<open>
  \<^verbatim>\<open>str.isspace\<close> and the regular-expression class \<^verbatim>\<open>\s\<close> agree on Latin-1: the
  whitespace code points are 9 to 13, 28 to 32, 133 (NEL) and 160 (NBSP).
\<close>

definition isspace :: "char \<Rightarrow> bool" where
  "isspace c = ((of_char c :: nat) \<in> set [9, 10, 11, 12, 13, 28, 29, 30, 31, 32, 133, 160])"

text \<open>
  \<^verbatim>\<open>str.lower\<close> on Latin-1: A to Z, and the accented capitals U+00C0 to U+00DE except
  the multiplication sign U+00D7, move up by 32; every other code point stays.
\<close>

definition lower_char :: "char \<Rightarrow> char" where
  "lower_char c =
     (let n = (of_char c :: nat)
      in if (65 \<le> n \<and> n \<le> 90) \<or> (192 \<le> n \<and> n \<le> 214) \<or> (216 \<le> n \<and> n \<le> 222)
         then char_of (n + 32) else c)"

definition lower :: "string \<Rightarrow> string" where
  "lower s = map lower_char s"

text \<open>\<^verbatim>\<open>str.strip()\<close>: drop the leading and the trailing whitespace.\<close>

definition strip :: "string \<Rightarrow> string" where
  "strip s = rev (dropWhile isspace (rev (dropWhile isspace s)))"

text \<open>
  \<^verbatim>\<open>re.sub(r"\s+", " ", s)\<close>: every maximal run of whitespace is replaced by one space.
\<close>

function sub_spaces :: "string \<Rightarrow> string" where
  "sub_spaces [] = []"
| "sub_spaces (c # s) =
     (if isspace c then CHR '' '' # sub_spaces (dropWhile isspace s) else c # sub_spaces s)"
  by pat_completeness auto
termination
  by (relation "measure length") (auto simp: le_imp_less_Suc length_dropWhile_le)

text \<open>
  \<^verbatim>\<open>
  def norm_text(s: str) -> str:
      s = (s or "").strip().lower()
      s = re.sub(r"\s+", " ", s)
      return s
  \<close>
  The argument may be \<^verbatim>\<open>None\<close>, which \<^verbatim>\<open>s or ""\<close> turns into the empty string.
\<close>

definition norm_text :: "string option \<Rightarrow> string" where
  "norm_text s = sub_spaces (lower (strip (case s of None \<Rightarrow> [] | Some x \<Rightarrow> x)))"

text \<open>
  The specification's wording of the normalizer, for comparison with \<open>norm_text\<close>: split
  the text into its words (the maximal runs of non-whitespace, as \<^verbatim>\<open>str.split()\<close> does),
  lower-case each word, and join the words with single spaces.
\<close>

function split_words :: "string \<Rightarrow> string list" where
  "split_words s =
     (let t = dropWhile isspace s
      in if t = [] then []
         else takeWhile (\<lambda>c. \<not> isspace c) t # split_words (dropWhile (\<lambda>c. \<not> isspace c) t))"
  by pat_completeness auto
termination
proof (relation "measure length", goal_cases)
  case 1
  show ?case by simp
next
  case (2 s t)
  then have t: "dropWhile isspace s = t" and ne: "t \<noteq> []" by simp_all
  from ne obtain a r where ar: "t = a # r" by (cases t) auto
  have "dropWhile isspace s \<noteq> []" unfolding t by (rule ne)
  then have "\<not> isspace (hd (dropWhile isspace s))" by (rule hd_dropWhile)
  then have "\<not> isspace a" unfolding t ar by simp
  then have "dropWhile (\<lambda>c. \<not> isspace c) t = dropWhile (\<lambda>c. \<not> isspace c) r"
    unfolding ar by simp
  moreover have "length (dropWhile (\<lambda>c. \<not> isspace c) r) \<le> length r"
    by (rule length_dropWhile_le)
  moreover have "length t \<le> length s"
    unfolding t [symmetric] by (rule length_dropWhile_le)
  ultimately show ?case
    unfolding ar by simp
qed

declare split_words.simps [simp del]

fun join_words :: "string list \<Rightarrow> string" where
  "join_words [] = []"
| "join_words [w] = w"
| "join_words (w # v # ws) = w @ CHR '' '' # join_words (v # ws)"

definition normalize_spec :: "string \<Rightarrow> string" where
  "normalize_spec x = join_words (map lower (split_words x))"

text \<open>The shape of a normalized string: no whitespace at either end, and every whitespace
  character is a single space followed by a non-whitespace character.\<close>

definition trimmed :: "string \<Rightarrow> bool" where
  "trimmed s = (s = [] \<or> (\<not> isspace (hd s) \<and> \<not> isspace (last s)))"

fun collapsed :: "string \<Rightarrow> bool" where
  "collapsed [] = True"
| "collapsed [c] = (isspace c \<longrightarrow> c = CHR '' '')"
| "collapsed (c # d # s) = ((isspace c \<longrightarrow> c = CHR '' '' \<and> \<not> isspace d) \<and> collapsed (d # s))"

section \<open>Helpers: \<^verbatim>\<open>make_company_key\<close>\<close>

text \<open>
  \<^verbatim>\<open>
  def make_company_key(name: str, province: str, ccaa: str) -> str:
      base = f"{norm_text(name)}|{norm_text(province)}|{norm_text(ccaa)}"
      return hashlib.md5(base.encode("utf-8")).hexdigest()
  \<close>
  \<^verbatim>\<open>str.encode("utf-8")\<close> on Latin-1 code points: one byte below 128, two bytes from 128.
\<close>

definition utf8_char :: "char \<Rightarrow> 8 word list" where
  "utf8_char c =
     (let n = (of_char c :: nat)
      in if n < 128 then [of_nat n] else [of_nat (192 + n div 64), of_nat (128 + n mod 64)])"

definition encode_utf8 :: "string \<Rightarrow> 8 word list" where
  "encode_utf8 s = concat (map utf8_char s)"

text \<open>
  \<^verbatim>\<open>hashlib.md5\<close> is the MD5 message digest of RFC 1321 on 32-bit words: the message is
  padded with the byte 0x80, zero bytes up to 56 modulo 64 and the bit length as 64 bits,
  little-endian; every block of 16 words goes through 64 steps.
\<close>

definition md5_s :: "nat list" where
  "md5_s = [7, 12, 17, 22, 7, 12, 17, 22, 7, 12, 17, 22, 7, 12, 17, 22,
            5, 9, 14, 20, 5, 9, 14, 20, 5, 9, 14, 20, 5, 9, 14, 20,
            4, 11, 16, 23, 4, 11, 16, 23, 4, 11, 16, 23, 4, 11, 16, 23,
            6, 10, 15, 21, 6, 10, 15, 21, 6, 10, 15, 21, 6, 10, 15, 21]"

definition md5_K :: "32 word list" where
  "md5_K = [0xd76aa478, 0xe8c7b756, 0x242070db, 0xc1bdceee, 0xf57c0faf, 0x4787c62a, 0xa8304613, 0xfd469501,
            0x698098d8, 0x8b44f7af, 0xffff5bb1, 0x895cd7be, 0x6b901122, 0xfd987193, 0xa679438e, 0x49b40821,
            0xf61e2562, 0xc040b340, 0x265e5a51, 0xe9b6c7aa, 0xd62f105d, 0x02441453, 0xd8a1e681, 0xe7d3fbc8,
            0x21e1cde6, 0xc33707d6, 0xf4d50d87, 0x455a14ed, 0xa9e3e905, 0xfcefa3f8, 0x676f02d9, 0x8d2a4c8a,
            0xfffa3942, 0x8771f681, 0x6d9d6122, 0xfde5380c, 0xa4beea44, 0x4bdecfa9, 0xf6bb4b60, 0xbebfbc70,
            0x289b7ec6, 0xeaa127fa, 0xd4ef3085, 0x04881d05, 0xd9d4d039, 0xe6db99e5, 0x1fa27cf8, 0xc4ac5665,
            0xf4292244, 0x432aff97, 0xab9423a7, 0xfc93a039, 0x655b59c3, 0x8f0ccc92, 0xffeff47d, 0x85845dd1,
            0x6fa87e4f, 0xfe2ce6e0, 0xa3014314, 0x4e0811a1, 0xf7537e82, 0xbd3af235, 0x2ad7d2bb, 0xeb86d391]"

definition md5_pad :: "8 word list \<Rightarrow> 8 word list" where
  "md5_pad m =
     (let l = length m
      in m @ [0x80] @ replicate ((119 - l mod 64) mod 64) 0 @
         map (\<lambda>i. ucast (drop_bit (8 * i) (of_nat (8 * l) :: 64 word))) [0..<8])"

definition le32 :: "8 word list \<Rightarrow> 32 word" where
  "le32 bs = foldr (\<lambda>b w. ucast b OR push_bit 8 w) bs 0"

fun md5_words :: "8 word list \<Rightarrow> 32 word list" where
  "md5_words (a # b # c # d # bs) = le32 [a, b, c, d] # md5_words bs"
| "md5_words _ = []"

type_synonym md5_state = "32 word \<times> 32 word \<times> 32 word \<times> 32 word"

definition md5_step :: "32 word list \<Rightarrow> nat \<Rightarrow> md5_state \<Rightarrow> md5_state" where
  "md5_step M i st =
     (case st of (A, B, C, D) \<Rightarrow>
        let (F, g) =
              (if i < 16 then ((B AND C) OR (NOT B AND D), i)
               else if i < 32 then ((D AND B) OR (NOT D AND C), (5 * i + 1) mod 16)
               else if i < 48 then (B XOR C XOR D, (3 * i + 5) mod 16)
               else (C XOR (B OR NOT D), (7 * i) mod 16));
            F' = F + A + md5_K ! i + M ! g
        in (D, B + word_rotl (md5_s ! i) F', B, C))"

definition md5_block :: "md5_state \<Rightarrow> 32 word list \<Rightarrow> md5_state" where
  "md5_block st M =
     (case st of (a0, b0, c0, d0) \<Rightarrow>
        case fold (md5_step M) [0..<64] st of (A, B, C, D) \<Rightarrow>
          (a0 + A, b0 + B, c0 + C, d0 + D))"

fun md5_blocks :: "md5_state \<Rightarrow> 32 word list \<Rightarrow> md5_state" where
  "md5_blocks st ws =
     (if length ws < 16 then st else md5_blocks (md5_block st (take 16 ws)) (drop 16 ws))"

declare md5_blocks.simps [simp del]

definition bytes_le32 :: "32 word \<Rightarrow> 8 word list" where
  "bytes_le32 w = map (\<lambda>i. ucast (drop_bit (8 * i) w)) [0..<4]"

definition md5_digest :: "8 word list \<Rightarrow> 8 word list" where
  "md5_digest m =
     (case md5_blocks (0x67452301, 0xefcdab89, 0x98badcfe, 0x10325476) (md5_words (md5_pad m)) of
        (a, b, c, d) \<Rightarrow> bytes_le32 a @ bytes_le32 b @ bytes_le32 c @ bytes_le32 d)"

definition hex_digit :: "nat \<Rightarrow> char" where
  "hex_digit n = ''0123456789abcdef'' ! n"

definition hex_byte :: "8 word \<Rightarrow> string" where
  "hex_byte b = [hex_digit (unat b div 16), hex_digit (unat b mod 16)]"

definition hexdigest :: "8 word list \<Rightarrow> string" where
  "hexdigest m = concat (map hex_byte (md5_digest m))"

text \<open>The local variable \<^verbatim>\<open>base\<close> of \<^verbatim>\<open>make_company_key\<close>, and the key.\<close>

definition key_base :: "string \<Rightarrow> string \<Rightarrow> string \<Rightarrow> string" where
  "key_base name province ccaa =
     norm_text (Some name) @ ''|'' @ norm_text (Some province) @ ''|'' @ norm_text (Some ccaa)"

definition make_company_key :: "string \<Rightarrow> string \<Rightarrow> string \<Rightarrow> string" where
  "make_company_key name province ccaa = hexdigest (encode_utf8 (key_base name province ccaa))"

section \<open>Helpers: \<^verbatim>\<open>detect_signals\<close>\<close>

text \<open>
  The keyword patterns use three constructs of Python's \<^verbatim>\<open>re\<close>: a literal character,
  a character class (the only one is that of \<^verbatim>\<open>o\<close> and the accented \<^verbatim>\<open>o\<close>, code point
  U+00F3, written \<^verbatim>\<open>[o\xf3]\<close> below), and the word boundary \<^verbatim>\<open>\b\<close>. A pattern is a
  list of such items.
\<close>

datatype rx = Bnd | Lit char | Cls "char list"

definition lit :: "string \<Rightarrow> rx list" where
  "lit s = map Lit s"

text \<open>
  \<^verbatim>\<open>\w\<close> on Latin-1 (\<^verbatim>\<open>str.isalnum\<close> or the underscore): digits, letters, the
  underscore, U+00AA, U+00B2, U+00B3, U+00B5, U+00B9, U+00BA, U+00BC to U+00BE, and the
  letters from U+00C0 on except the multiplication and division signs.
\<close>

definition is_word :: "char \<Rightarrow> bool" where
  "is_word c =
     (let n = (of_char c :: nat)
      in (48 \<le> n \<and> n \<le> 57) \<or> (65 \<le> n \<and> n \<le> 90) \<or> n = 95 \<or> (97 \<le> n \<and> n \<le> 122) \<or>
         n \<in> set [170, 178, 179, 181, 185, 186, 188, 189, 190] \<or>
         (192 \<le> n \<and> n \<le> 214) \<or> (216 \<le> n \<and> n \<le> 246) \<or> (248 \<le> n \<and> n \<le> 255))"

text \<open>
  \<^verbatim>\<open>\b\<close> holds between a word character and a non-word character, the outside of the
  string counting as non-word. \<open>prev\<close> is the character before the current position.
\<close>

fun word_before :: "char option \<Rightarrow> bool" where
  "word_before None = False"
| "word_before (Some c) = is_word c"

fun word_next :: "string \<Rightarrow> bool" where
  "word_next [] = False"
| "word_next (c # s) = is_word c"

fun match_here :: "rx list \<Rightarrow> char option \<Rightarrow> string \<Rightarrow> bool" where
  "match_here [] prev s = True"
| "match_here (Bnd # r) prev s = (word_before prev \<noteq> word_next s \<and> match_here r prev s)"
| "match_here (Lit c # r) prev [] = False"
| "match_here (Lit c # r) prev (x # s) = (x = c \<and> match_here r (Some x) s)"
| "match_here (Cls cs # r) prev [] = False"
| "match_here (Cls cs # r) prev (x # s) = (x \<in> set cs \<and> match_here r (Some x) s)"

text \<open>\<^verbatim>\<open>re.search(p, t)\<close> tries the pattern at every position of the text, left to right;
  its result is only tested for being a match.\<close>

fun search_from :: "rx list \<Rightarrow> char option \<Rightarrow> string \<Rightarrow> bool" where
  "search_from r prev [] = match_here r prev []"
| "search_from r prev (x # s) = (match_here r prev (x # s) \<or> search_from r (Some x) s)"

definition re_search :: "rx list \<Rightarrow> string \<Rightarrow> bool" where
  "re_search r s = search_from r None s"

text \<open>The character before the end of a prefix: what \<open>prev\<close> is after reading \<open>u\<close>.\<close>

definition last_char :: "string \<Rightarrow> char option" where
  "last_char u = (if u = [] then None else Some (last u))"

definition o_class :: rx where
  "o_class = Cls [CHR ''o'', CHR 0xF3]"

text \<open>
  \<^verbatim>\<open>
  KEYWORDS_POS = [r"\bcesi[o\xf3]n\b", r"\bcesi[o\xf3]n de empresa\b", r"\btraspaso\b",
      r"\btransmisi[o\xf3]n\b", r"\bjubilaci[o\xf3]n\b", r"\brelevo generacional\b",
      r"\bunidad productiva\b"]
  KEYWORDS_GOV = [r"\bconvocatoria de junta\b", r"\bjunta general\b", r"\bcambio accionario\b"]
  KEYWORDS_NEG = [r"\bdisoluci[o\xf3]n\b", r"\bliquidaci[o\xf3]n\b", r"\bconcurso\b", r"\binsolvenc"]
  \<close>
\<close>

definition KEYWORDS_POS :: "rx list list" where
  "KEYWORDS_POS =
     [Bnd # lit ''cesi'' @ [o_class] @ lit ''n'' @ [Bnd],
      Bnd # lit ''cesi'' @ [o_class] @ lit ''n de empresa'' @ [Bnd],
      Bnd # lit ''traspaso'' @ [Bnd],
      Bnd # lit ''transmisi'' @ [o_class] @ lit ''n'' @ [Bnd],
      Bnd # lit ''jubilaci'' @ [o_class] @ lit ''n'' @ [Bnd],
      Bnd # lit ''relevo generacional'' @ [Bnd],
      Bnd # lit ''unidad productiva'' @ [Bnd]]"

definition KEYWORDS_GOV :: "rx list list" where
  "KEYWORDS_GOV =
     [Bnd # lit ''convocatoria de junta'' @ [Bnd],
      Bnd # lit ''junta general'' @ [Bnd],
      Bnd # lit ''cambio accionario'' @ [Bnd]]"

definition KEYWORDS_NEG :: "rx list list" where
  "KEYWORDS_NEG =
     [Bnd # lit ''disoluci'' @ [o_class] @ lit ''n'' @ [Bnd],
      Bnd # lit ''liquidaci'' @ [o_class] @ lit ''n'' @ [Bnd],
      Bnd # lit ''concurso'' @ [Bnd],
      Bnd # lit ''insolvenc'']"

text \<open>
  \<^verbatim>\<open>
  def detect_signals(text: str) -> Dict[str, bool]:
      t = norm_text(text)
      pos = any(re.search(p, t) for p in KEYWORDS_POS)
      gov = any(re.search(p, t) for p in KEYWORDS_GOV)
      neg = any(re.search(p, t) for p in KEYWORDS_NEG)
      return {"pos": pos, "gov": gov, "neg": neg}
  \<close>
\<close>

record sigs =
  pos :: bool
  gov :: bool
  neg :: bool

definition detect_signals :: "string option \<Rightarrow> sigs" where
  "detect_signals text =
     (let t = norm_text text
      in \<lparr>pos = list_ex (\<lambda>p. re_search p t) KEYWORDS_POS,
          gov = list_ex (\<lambda>p. re_search p t) KEYWORDS_GOV,
          neg = list_ex (\<lambda>p. re_search p t) KEYWORDS_NEG\<rparr>)"

text \<open>Sample texts: the accented words of the patterns, in both spellings.\<close>

definition o_acute :: char where
  "o_acute = CHR 0xF3"

definition O_acute :: char where
  "O_acute = CHR 0xD3"

section \<open>Azure SQL: the four tables\<close>

text \<open>
  Exceptions of the script, by origin: \<^verbatim>\<open>requests\<close> (\<open>FetchError\<close>), \<^verbatim>\<open>PyPDF2\<close>
  (\<open>ParseError\<close>), \<^verbatim>\<open>datetime.strptime\<close> (\<open>ValueError\<close>), the script's own
  \<^verbatim>\<open>RuntimeError\<close>, and \<^verbatim>\<open>pyodbc\<close> (\<open>DbError\<close>).
\<close>

datatype error = FetchError | ParseError | ValueError | RuntimeError | DbError

text \<open>A \<^verbatim>\<open>datetime.date\<close>: year, month, day.\<close>

type_synonym date = "nat \<times> nat \<times> nat"

text \<open>
  The rows follow the \<^verbatim>\<open>CREATE TABLE\<close> statements of \<^verbatim>\<open>ensure_schema\<close>. The
  timestamps \<^verbatim>\<open>created_at\<close>, \<^verbatim>\<open>inserted_at\<close>, \<^verbatim>\<open>updated_at\<close> and the identity
  \<^verbatim>\<open>signal_id\<close>, which the server fills in and the script never reads, are left out.
  \<^verbatim>\<open>companies\<close> has a unique \<^verbatim>\<open>company_key\<close> and \<^verbatim>\<open>scores\<close> has it as primary key, so
  both are maps from the key; \<^verbatim>\<open>events\<close> and \<^verbatim>\<open>signals\<close> are lists in insertion order,
  an event paired with its \<^verbatim>\<open>event_id\<close>.
\<close>

record company_row =
  company_id :: int
  company_name :: string
  company_province :: string
  company_ccaa :: string

record event =
  ev_source :: string
  ev_source_ref :: "string option"
  ev_event_date :: date
  ev_event_type :: string
  ev_title :: string
  ev_url :: string
  ev_raw_excerpt :: string
  ev_company_key :: string

record signal =
  sig_company_key :: string
  sig_signal_date :: date
  sig_signal_kind :: string
  sig_weight :: int
  sig_source :: string
  sig_event_id :: "int option"
  sig_notes :: "string option"

record score_row =
  score :: int
  band :: string
  score_version :: string

record db =
  companies :: "string \<rightharpoonup> company_row"
  next_company_id :: int
  events :: "(int \<times> event) list"
  next_event_id :: int
  signals :: "signal list"
  scores :: "string \<rightharpoonup> score_row"

text \<open>The tables as \<^verbatim>\<open>ensure_schema\<close> creates them: empty, identities starting at 1.\<close>

definition empty_db :: db where
  "empty_db = \<lparr>companies = Map.empty, next_company_id = 1, events = [], next_event_id = 1,
               signals = [], scores = Map.empty\<rparr>"

text \<open>
  A statement fails, with the tables as they were, when a field does not fit its column:
  a string longer than its \<^verbatim>\<open>VARCHAR(n)\<close> or \<^verbatim>\<open>NVARCHAR(n)\<close>, an integer outside
  \<^verbatim>\<open>INT\<close>. The script runs with autocommit off, so the earlier statements of the
  run stay in the open transaction.
\<close>

definition fits_int :: "int \<Rightarrow> bool" where
  "fits_int n = (- 2147483648 \<le> n \<and> n \<le> 2147483647)"

fun fits_opt :: "nat \<Rightarrow> string option \<Rightarrow> bool" where
  "fits_opt n None = True"
| "fits_opt n (Some s) = (length s \<le> n)"

text \<open>
  \<^verbatim>\<open>upsert_company\<close>: a \<^verbatim>\<open>MERGE\<close> on \<^verbatim>\<open>company_key\<close>; a matched row gets the new name,
  province and region, an unmatched key gets a new row.
\<close>

definition upsert_company :: "string \<Rightarrow> string \<Rightarrow> string \<Rightarrow> string \<Rightarrow> db \<Rightarrow> error + db" where
  "upsert_company ckey name province ccaa d =
     (if 32 < length ckey \<or> 512 < length name \<or> 128 < length province \<or> 128 < length ccaa
      then Inl DbError
      else case companies d ckey of
             Some row \<Rightarrow>
               Inr (d\<lparr>companies := (companies d)(ckey \<mapsto>
                      row\<lparr>company_name := name, company_province := province, company_ccaa := ccaa\<rparr>)\<rparr>)
           | None \<Rightarrow>
               Inr (d\<lparr>companies := (companies d)(ckey \<mapsto>
                      \<lparr>company_id = next_company_id d, company_name = name,
                       company_province = province, company_ccaa = ccaa\<rparr>),
                     next_company_id := next_company_id d + 1\<rparr>))"

text \<open>\<^verbatim>\<open>insert_event\<close>: appends the row and returns \<^verbatim>\<open>INSERTED.event_id\<close>.\<close>

definition insert_event :: "event \<Rightarrow> db \<Rightarrow> error + int \<times> db" where
  "insert_event ev d =
     (if 64 < length (ev_source ev) \<or> \<not> fits_opt 256 (ev_source_ref ev) \<or>
         64 < length (ev_event_type ev) \<or> 512 < length (ev_title ev) \<or>
         1024 < length (ev_url ev) \<or> 32 < length (ev_company_key ev)
      then Inl DbError
      else Inr (next_event_id d,
                d\<lparr>events := events d @ [(next_event_id d, ev)],
                  next_event_id := next_event_id d + 1\<rparr>))"

definition insert_signal :: "signal \<Rightarrow> db \<Rightarrow> error + db" where
  "insert_signal sg d =
     (if 32 < length (sig_company_key sg) \<or> 64 < length (sig_signal_kind sg) \<or>
         \<not> fits_int (sig_weight sg) \<or> 64 < length (sig_source sg) \<or>
         \<not> fits_opt 1024 (sig_notes sg)
      then Inl DbError
      else Inr (d\<lparr>signals := signals d @ [sg]\<rparr>))"

text \<open>
  \<^verbatim>\<open>recompute_scores\<close> is one statement of three common table expressions and a
  \<^verbatim>\<open>MERGE\<close>:
  \<^verbatim>\<open>
  agg:    SELECT company_key, SUM(weight) AS raw_score FROM signals GROUP BY company_key
  norm:   CASE WHEN raw_score < 0 THEN 0 WHEN raw_score > 100 THEN 100 ELSE raw_score END
  banded: CASE WHEN score >= 75 THEN 'Hot' WHEN score >= 60 THEN 'Warm'
               WHEN score >= 45 THEN 'Watchlist' ELSE 'Cold' END
  MERGE scores ON company_key: WHEN MATCHED THEN UPDATE ..., WHEN NOT MATCHED THEN INSERT ...
  \<close>
  \<^verbatim>\<open>SUM\<close> over an \<^verbatim>\<open>INT\<close> column is an \<^verbatim>\<open>INT\<close>: a sum outside the range is an
  arithmetic overflow error. The \<^verbatim>\<open>MERGE\<close> has no branch for rows of \<^verbatim>\<open>scores\<close>
  whose key is not in the source: they stay.
\<close>

definition agg :: "signal list \<Rightarrow> (string \<times> int) list" where
  "agg sigs =
     map (\<lambda>k. (k, sum_list (map sig_weight (filter (\<lambda>s. sig_company_key s = k) sigs))))
       (remdups (map sig_company_key sigs))"

definition norm_score :: "int \<Rightarrow> int" where
  "norm_score raw_score = (if raw_score < 0 then 0 else if raw_score > 100 then 100 else raw_score)"

definition banded :: "int \<Rightarrow> string" where
  "banded s =
     (if s \<ge> 75 then ''Hot'' else if s \<ge> 60 then ''Warm'' else if s \<ge> 45 then ''Watchlist''
      else ''Cold'')"

definition merge_score :: "string \<Rightarrow> string \<times> int \<Rightarrow> (string \<rightharpoonup> score_row) \<Rightarrow> (string \<rightharpoonup> score_row)" where
  "merge_score version src tgt =
     tgt(fst src \<mapsto> \<lparr>score = norm_score (snd src), band = banded (norm_score (snd src)),
                      score_version = version\<rparr>)"

definition recompute_scores :: "string \<Rightarrow> db \<Rightarrow> error + db" where
  "recompute_scores version d =
     (let a = agg (signals d)
      in if list_ex (\<lambda>src. \<not> fits_int (snd src) \<or> 32 < length (fst src)) a \<or>
            (a \<noteq> [] \<and> 32 < length version)
         then Inl DbError
         else Inr (d\<lparr>scores := fold (merge_score version) a (scores d)\<rparr>))"

definition default_version :: string where
  "default_version = ''v0_rules_2026_02''"

section \<open>The outside world\<close>

text \<open>
  What the script gets over the network or from the clock is a field of \<open>env\<close>; each
  field that can raise returns a sum.
  \<^item> \<open>utc_today_yyyymmdd\<close>, \<open>utc_today\<close>: \<^verbatim>\<open>datetime.now(timezone.utc)\<close> as a string and
    as a date;
  \<^item> \<open>strptime\<close>: \<^verbatim>\<open>datetime.strptime(run_date, "%Y%m%d").date()\<close>;
  \<^item> \<open>fetch_borme_sumario\<close>: the HTTP request and the \<^verbatim>\<open>items\<close> of the JSON answer;
  \<^item> \<open>pdf_text_from_url\<close>: download and text extraction of one PDF;
  \<^item> \<open>scrape_listings_basic\<close>: the list of \<^verbatim>\<open>{"title", "url"}\<close> of one listing page,
    the second argument being \<^verbatim>\<open>max_items\<close>;
  \<^item> \<open>sql_conn\<close>: opening the connection.
\<close>

record item =
  titulo :: "string option"
  identificador :: "string option"
  url_pdf :: "string option"

record listing =
  li_title :: string
  li_url :: string

record env =
  utc_today_yyyymmdd :: string
  utc_today :: date
  strptime :: "string \<Rightarrow> error + date"
  fetch_borme_sumario :: "string \<Rightarrow> error + item list"
  pdf_text_from_url :: "string \<Rightarrow> error + string"
  scrape_listings_basic :: "string \<Rightarrow> nat \<Rightarrow> error + listing list"
  sql_conn :: "error + unit"

text \<open>The lines the script prints.\<close>

datatype log_line =
    BormeStart string nat nat int
  | BormeError "string option" error
  | BormeDone nat
  | RegSource string string nat
  | RegError string error
  | RegDone nat

text \<open>What a run leaves behind when it commits: the tables, the printed lines and the
  count of its last line.\<close>

record run =
  run_db :: db
  run_log :: "log_line list"
  run_count :: nat

text \<open>\<^verbatim>\<open>xs[:n]\<close> for an integer \<^verbatim>\<open>n\<close>: a negative \<^verbatim>\<open>n\<close> counts from the end.\<close>

definition py_take :: "int \<Rightarrow> 'a list \<Rightarrow> 'a list" where
  "py_take n xs = (if 0 \<le> n then take (nat n) xs else take (length xs - nat (- n)) xs)"

section \<open>ETL BORME\<close>

definition insert_signal_if :: "bool \<Rightarrow> signal \<Rightarrow> db \<Rightarrow> error + db" where
  "insert_signal_if b sg d = (if b then insert_signal sg d else Inr d)"

text \<open>
  The three \<^verbatim>\<open>if sigs[...]: insert_signal(...)\<close> of the loop body, in their order.
\<close>

definition borme_insert_signals :: "sigs \<Rightarrow> string \<Rightarrow> date \<Rightarrow> int \<Rightarrow> db \<Rightarrow> error option \<times> db" where
  "borme_insert_signals sg ckey event_date event_id d =
     (case insert_signal_if (pos sg)
             \<lparr>sig_company_key = ckey, sig_signal_date = event_date,
              sig_signal_kind = ''explicit_or_text_relevo'', sig_weight = 40,
              sig_source = ''BORME'', sig_event_id = Some event_id,
              sig_notes = Some (''Keywords positivas (traspaso/cesi'' @ [CHR 0xF3] @
                                ''n/jubilaci'' @ [CHR 0xF3] @ ''n/relevo).'')\<rparr> d of
        Inl e \<Rightarrow> (Some e, d)
      | Inr d1 \<Rightarrow>
          (case insert_signal_if (gov sg)
                  \<lparr>sig_company_key = ckey, sig_signal_date = event_date,
                   sig_signal_kind = ''junta_o_cambio'', sig_weight = 15,
                   sig_source = ''BORME'', sig_event_id = Some event_id,
                   sig_notes = Some ''Keywords de junta/cambio accionario.''\<rparr> d1 of
             Inl e \<Rightarrow> (Some e, d1)
           | Inr d2 \<Rightarrow>
               (case insert_signal_if (neg sg)
                       \<lparr>sig_company_key = ckey, sig_signal_date = event_date,
                        sig_signal_kind = ''negativa_distressed'', sig_weight = - 50,
                        sig_source = ''BORME'', sig_event_id = Some event_id,
                        sig_notes = Some (''Keywords negativas (disoluci'' @ [CHR 0xF3] @
                                          ''n/concurso/liquidaci'' @ [CHR 0xF3] @ ''n).'')\<rparr> d2 of
                  Inl e \<Rightarrow> (Some e, d2)
                | Inr d3 \<Rightarrow> (None, d3))))"

text \<open>
  The loop body from \<^verbatim>\<open>company_name = ...\<close> on: company, event, signals. The result is
  the exception raised, if any, and the tables with the statements executed before it.
\<close>

definition borme_store :: "env \<Rightarrow> string \<Rightarrow> string \<Rightarrow> string \<Rightarrow> string \<Rightarrow> string \<Rightarrow> sigs \<Rightarrow> db \<Rightarrow> error option \<times> db" where
  "borme_store env run_date title ident url text sg d =
     (let company_name = strip (if take 220 title = [] then ''Empresa (BORME)'' else take 220 title);
          province = [];
          ccaa = [];
          ckey = make_company_key company_name province ccaa
      in case upsert_company ckey company_name province ccaa d of
           Inl e \<Rightarrow> (Some e, d)
         | Inr d1 \<Rightarrow>
             (let excerpt = (if text \<noteq> [] then take 1200 text else [])
              in case strptime env run_date of
                   Inl e \<Rightarrow> (Some e, d1)
                 | Inr event_date \<Rightarrow>
                     (case insert_event
                             \<lparr>ev_source = ''BORME'', ev_source_ref = Some ident,
                              ev_event_date = event_date, ev_event_type = ''borme_pdf'',
                              ev_title = take 500 title, ev_url = url, ev_raw_excerpt = excerpt,
                              ev_company_key = ckey\<rparr> d1 of
                        Inl e \<Rightarrow> (Some e, d1)
                      | Inr (event_id, d2) \<Rightarrow> borme_insert_signals sg ckey event_date event_id d2)))"

text \<open>
  The body of the \<^verbatim>\<open>try\<close>. \<open>Continue\<close> is the \<^verbatim>\<open>continue\<close> of the noise control
  (\<^verbatim>\<open>si no hay senales, saltamos\<close>), \<open>Processed\<close> is reaching \<^verbatim>\<open>processed += 1\<close>. The
  items of the loop have a \<^verbatim>\<open>url_pdf\<close>; without one \<^verbatim>\<open>requests.get\<close> raises.
\<close>

datatype outcome = Continue | Processed

definition borme_try :: "env \<Rightarrow> string \<Rightarrow> item \<Rightarrow> db \<Rightarrow> (error + outcome) \<times> db" where
  "borme_try env run_date it d =
     (let title = (case titulo it of None \<Rightarrow> [] | Some t \<Rightarrow> t);
          ident = (case identificador it of None \<Rightarrow> [] | Some i \<Rightarrow> i)
      in case url_pdf it of
           None \<Rightarrow> (Inl FetchError, d)
         | Some u \<Rightarrow>
             (case pdf_text_from_url env u of
                Inl e \<Rightarrow> (Inl e, d)
              | Inr text \<Rightarrow>
                  (let sg = detect_signals (Some text)
                   in if \<not> (pos sg \<or> gov sg \<or> neg sg) then (Inr Continue, d)
                      else case borme_store env run_date title ident u text sg d of
                             (Some e, d') \<Rightarrow> (Inl e, d')
                           | (None, d') \<Rightarrow> (Inr Processed, d'))))"

text \<open>One iteration of the \<^verbatim>\<open>for\<close> loop: the \<^verbatim>\<open>try\<close> with its \<^verbatim>\<open>except Exception\<close>. The
  state is the tables, the counter \<^verbatim>\<open>processed\<close> and the printed lines.\<close>

definition borme_step :: "env \<Rightarrow> string \<Rightarrow> item \<Rightarrow> db \<times> nat \<times> log_line list \<Rightarrow> db \<times> nat \<times> log_line list" where
  "borme_step env run_date it st =
     (case st of (d, processed, out) \<Rightarrow>
        (case borme_try env run_date it d of
           (Inr Processed, d') \<Rightarrow> (d', processed + 1, out)
         | (Inr Continue, d') \<Rightarrow> (d', processed, out)
         | (Inl e, d') \<Rightarrow> (d', processed, out @ [BormeError (identificador it) e])))"

definition has_pdf :: "item \<Rightarrow> bool" where
  "has_pdf it = (case url_pdf it of None \<Rightarrow> False | Some u \<Rightarrow> u \<noteq> [])"

text \<open>
  \<^verbatim>\<open>etl_borme(run_date, schema, cap)\<close>. The schema name only prefixes the table names and
  is left out; \<^verbatim>\<open>ensure_schema\<close>, which creates the four tables when they are absent,
  leaves the tables of \<open>db\<close> as they are. An exception outside the loop's \<^verbatim>\<open>try\<close>
  ends the run before \<^verbatim>\<open>conn.commit()\<close>: the result is the error and the tables
  stay as they were. The function returns nothing; its count is in the last printed
  line and is kept in \<open>run_count\<close>.
\<close>

definition etl_borme :: "env \<Rightarrow> string \<Rightarrow> int \<Rightarrow> db \<Rightarrow> error + run" where
  "etl_borme env run_date0 cap d =
     (let run_date = (if run_date0 = [] then utc_today_yyyymmdd env else run_date0)
      in case fetch_borme_sumario env run_date of
           Inl e \<Rightarrow> Inl e
         | Inr items \<Rightarrow>
             (let pdf_items = filter has_pdf items;
                  out0 = [BormeStart run_date (length items) (length pdf_items) cap]
              in case sql_conn env of
                   Inl e \<Rightarrow> Inl e
                 | Inr _ \<Rightarrow>
                     (case fold (borme_step env run_date) (py_take cap pdf_items) (d, 0, out0) of
                        (d1, processed, out1) \<Rightarrow>
                          (case recompute_scores default_version d1 of
                             Inl e \<Rightarrow> Inl e
                           | Inr d2 \<Rightarrow>
                               Inr \<lparr>run_db = d2, run_log = out1 @ [BormeDone processed],
                                    run_count = processed\<rparr>))))"

section \<open>ETL Regionales\<close>

record regional_source =
  src_source :: string
  src_ccaa :: string
  src_list_url :: string

definition REGIONAL_SOURCES :: "regional_source list" where
  "REGIONAL_SOURCES =
     [\<lparr>src_source = ''RelevoAragon'', src_ccaa = ''Arag'' @ [CHR 0xF3] @ ''n'',
       src_list_url = ''https://relevoaragon.com/''\<rparr>,
      \<lparr>src_source = ''RELEVACyL'', src_ccaa = ''Castilla y Le'' @ [CHR 0xF3] @ ''n'',
       src_list_url = ''https://empresas.jcyl.es/web/es/economia-social-autonomos/novedad-programa-relevacyl.html''\<rparr>,
      \<lparr>src_source = ''RelevoCantabria'', src_ccaa = ''Cantabria'',
       src_list_url = ''https://relevocantabria.com/''\<rparr>]"

text \<open>The body of \<^verbatim>\<open>for li in listings\<close>, up to \<^verbatim>\<open>inserted += 1\<close>.\<close>

definition listing_event :: "date \<Rightarrow> string \<Rightarrow> string \<Rightarrow> string \<Rightarrow> string \<Rightarrow> string \<Rightarrow> event" where
  "listing_event today source ccaa name url ckey =
     \<lparr>ev_source = source, ev_source_ref = None, ev_event_date = today,
      ev_event_type = ''listing'', ev_title = take 500 name, ev_url = url,
      ev_raw_excerpt = ''Listing detectado (heur'' @ [CHR 0xED] @ ''stico) en '' @ source @
                       '' ('' @ ccaa @ '').'',
      ev_company_key = ckey\<rparr>"

definition listing_signal :: "date \<Rightarrow> string \<Rightarrow> string \<Rightarrow> int \<Rightarrow> signal" where
  "listing_signal today source ckey event_id =
     \<lparr>sig_company_key = ckey, sig_signal_date = today, sig_signal_kind = ''explicit_listing'',
      sig_weight = 40, sig_source = source, sig_event_id = Some event_id,
      sig_notes = Some (''Se'' @ [CHR 0xF1] @ ''al expl'' @ [CHR 0xED] @
                        ''cita: listing/bolsa (heur'' @ [CHR 0xED] @ ''stico).'')\<rparr>"

definition listing_body :: "date \<Rightarrow> string \<Rightarrow> string \<Rightarrow> listing \<Rightarrow> db \<Rightarrow> error option \<times> db" where
  "listing_body today source ccaa li d =
     (let name = (if li_title li = [] then ''Negocio en traspaso'' else li_title li);
          province = [];
          ckey = make_company_key name province ccaa
      in case upsert_company ckey name province ccaa d of
           Inl e \<Rightarrow> (Some e, d)
         | Inr d1 \<Rightarrow>
             (case insert_event (listing_event today source ccaa name (li_url li) ckey) d1 of
                Inl e \<Rightarrow> (Some e, d1)
              | Inr (event_id, d2) \<Rightarrow>
                  (case insert_signal (listing_signal today source ckey event_id) d2 of
                     Inl e \<Rightarrow> (Some e, d2)
                   | Inr d3 \<Rightarrow> (None, d3))))"

text \<open>\<^verbatim>\<open>for li in listings\<close> inside the \<^verbatim>\<open>try\<close>: the first exception leaves the loop.\<close>

fun listings_loop :: "date \<Rightarrow> string \<Rightarrow> string \<Rightarrow> listing list \<Rightarrow> db \<times> nat \<Rightarrow> error option \<times> db \<times> nat" where
  "listings_loop today source ccaa [] st = (None, st)"
| "listings_loop today source ccaa (li # lis) st =
     (case st of (d, inserted) \<Rightarrow>
        (case listing_body today source ccaa li d of
           (Some e, d') \<Rightarrow> (Some e, d', inserted)
         | (None, d') \<Rightarrow> listings_loop today source ccaa lis (d', inserted + 1)))"

text \<open>One iteration of \<^verbatim>\<open>for src in REGIONAL_SOURCES\<close>: the \<^verbatim>\<open>try\<close> around the scrape and
  the loop over the listings, with its \<^verbatim>\<open>except Exception\<close>.\<close>

definition regional_step :: "env \<Rightarrow> date \<Rightarrow> regional_source \<Rightarrow> db \<times> nat \<times> log_line list \<Rightarrow> db \<times> nat \<times> log_line list" where
  "regional_step env today src st =
     (case st of (d, inserted, out) \<Rightarrow>
        (case scrape_listings_basic env (src_list_url src) 25 of
           Inl e \<Rightarrow> (d, inserted, out @ [RegError (src_source src) e])
         | Inr listings \<Rightarrow>
             (let out1 = out @ [RegSource (src_source src) (src_ccaa src) (length listings)]
              in case listings_loop today (src_source src) (src_ccaa src) listings (d, inserted) of
                   (None, d', inserted') \<Rightarrow> (d', inserted', out1)
                 | (Some e, d', inserted') \<Rightarrow>
                     (d', inserted', out1 @ [RegError (src_source src) e]))))"

definition regional_run :: "env \<Rightarrow> regional_source list \<Rightarrow> db \<Rightarrow> error + run" where
  "regional_run env sources d =
     (let today = utc_today env
      in case sql_conn env of
           Inl e \<Rightarrow> Inl e
         | Inr _ \<Rightarrow>
             (case fold (regional_step env today) sources (d, 0, []) of
                (d1, inserted, out1) \<Rightarrow>
                  (case recompute_scores default_version d1 of
                     Inl e \<Rightarrow> Inl e
                   | Inr d2 \<Rightarrow>
                       Inr \<lparr>run_db = d2, run_log = out1 @ [RegDone inserted],
                            run_count = inserted\<rparr>)))"

definition etl_regional :: "env \<Rightarrow> db \<Rightarrow> error + run" where
  "etl_regional env d = regional_run env REGIONAL_SOURCES d"

section \<open>Vocabulary of the properties\<close>

text \<open>The sum of the weights of a company's signals, and whether it has a signal at all.\<close>

definition weight_sum :: "signal list \<Rightarrow> string \<Rightarrow> int" where
  "weight_sum sigs k = sum_list (map sig_weight (filter (\<lambda>s. sig_company_key s = k) sigs))"

definition owns_signal :: "db \<Rightarrow> string \<Rightarrow> bool" where
  "owns_signal d k = list_ex (\<lambda>s. sig_company_key s = k) (signals d)"

text \<open>
  \<open>adds d d' nev nsig\<close>: from \<open>d\<close> to \<open>d'\<close> the rows \<open>nev\<close> were appended to \<^verbatim>\<open>events\<close>
  and \<open>nsig\<close> to \<^verbatim>\<open>signals\<close>, each event under the next identity, and \<^verbatim>\<open>scores\<close> was
  not touched.
\<close>

definition adds :: "db \<Rightarrow> db \<Rightarrow> (int \<times> event) list \<Rightarrow> signal list \<Rightarrow> bool" where
  "adds d d' nev nsig =
     (events d' = events d @ nev \<and> signals d' = signals d @ nsig \<and> scores d' = scores d \<and>
      next_event_id d' = next_event_id d + int (length nev))"

text \<open>A signal row agrees with an event row: same key, same date, and the signal's
  \<^verbatim>\<open>event_id\<close> is the event's identity.\<close>

definition signal_matches_event :: "signal \<Rightarrow> int \<times> event \<Rightarrow> bool" where
  "signal_matches_event s e =
     (sig_event_id s = Some (fst e) \<and> sig_company_key s = ev_company_key (snd e) \<and>
      sig_signal_date s = ev_event_date (snd e))"

text \<open>The tables that the script can produce: from the empty schema, by its statements
  and by its runs.\<close>

inductive reachable :: "db \<Rightarrow> bool" where
  init: "reachable empty_db"
| company: "reachable d \<Longrightarrow> upsert_company ckey name province ccaa d = Inr d' \<Longrightarrow> reachable d'"
| event: "reachable d \<Longrightarrow> insert_event ev d = Inr (i, d') \<Longrightarrow> reachable d'"
| signal: "reachable d \<Longrightarrow> insert_signal sg d = Inr d' \<Longrightarrow> reachable d'"
| aggregate: "reachable d \<Longrightarrow> recompute_scores version d = Inr d' \<Longrightarrow> reachable d'"
| borme: "reachable d \<Longrightarrow> etl_borme env run_date cap d = Inr r \<Longrightarrow> reachable (run_db r)"
| regional: "reachable d \<Longrightarrow> etl_regional env d = Inr r \<Longrightarrow> reachable (run_db r)"

text \<open>
  A document-derived record is noise when its PDF is fetched and its text matches none
  of the three keyword classes.
\<close>

definition noise_doc :: "env \<Rightarrow> item \<Rightarrow> bool" where
  "noise_doc env it =
     (case url_pdf it of
        None \<Rightarrow> False
      | Some u \<Rightarrow>
          (case pdf_text_from_url env u of
             Inl e \<Rightarrow> False
           | Inr text \<Rightarrow>
               \<not> pos (detect_signals (Some text)) \<and> \<not> gov (detect_signals (Some text)) \<and>
               \<not> neg (detect_signals (Some text))))"



text \<open>The run date and the records of the loop of \<^verbatim>\<open>etl_borme\<close>.\<close>

definition run_date_of :: "env \<Rightarrow> string \<Rightarrow> string" where
  "run_date_of env run_date0 = (if run_date0 = [] then utc_today_yyyymmdd env else run_date0)"

definition borme_items :: "int \<Rightarrow> item list \<Rightarrow> item list" where
  "borme_items cap items = py_take cap (filter has_pdf items)"

text \<open>
  The name under which a listing is stored, whether its rows fit their columns, and
  whether the body of the loop over the listings completes for it.
\<close>

definition listing_name :: "listing \<Rightarrow> string" where
  "listing_name li = (if li_title li = [] then ''Negocio en traspaso'' else li_title li)"

definition listing_fits :: "string \<Rightarrow> string \<Rightarrow> listing \<Rightarrow> bool" where
  "listing_fits source ccaa li =
     (length (listing_name li) \<le> 512 \<and> length ccaa \<le> 128 \<and> length source \<le> 64 \<and>
      length (li_url li) \<le> 1024)"

definition listing_ok :: "date \<Rightarrow> string \<Rightarrow> string \<Rightarrow> listing \<Rightarrow> bool" where
  "listing_ok today source ccaa li = (fst (listing_body today source ccaa li empty_db) = None)"

text \<open>
  What one regional source adds to the count \<^verbatim>\<open>inserted\<close> and to the printed lines: the
  listings before the first one that fails are counted, and a failure, of the scrape or
  of a listing, is one \<^verbatim>\<open>[REG] ERROR\<close> line with the name of the source.
\<close>

definition regional_count :: "env \<Rightarrow> date \<Rightarrow> regional_source \<Rightarrow> nat" where
  "regional_count env today src =
     (case scrape_listings_basic env (src_list_url src) 25 of
        Inl e \<Rightarrow> 0
      | Inr listings \<Rightarrow> length (takeWhile (listing_ok today (src_source src) (src_ccaa src)) listings))"

definition regional_lines :: "env \<Rightarrow> date \<Rightarrow> regional_source \<Rightarrow> log_line list" where
  "regional_lines env today src =
     (case scrape_listings_basic env (src_list_url src) 25 of
        Inl e \<Rightarrow> [RegError (src_source src) e]
      | Inr listings \<Rightarrow>
          RegSource (src_source src) (src_ccaa src) (length listings) #
          (if list_all (listing_ok today (src_source src) (src_ccaa src)) listings then []
           else [RegError (src_source src) DbError]))"

text \<open>\<open>extends d d'\<close>: rows were appended to \<^verbatim>\<open>events\<close> and \<^verbatim>\<open>signals\<close>, and every new
  signal agrees with one of the new events.\<close>

definition extends :: "db \<Rightarrow> db \<Rightarrow> bool" where
  "extends d d' =
     (\<exists>nev ns. adds d d' nev ns \<and> (\<forall>s\<in>set ns. \<exists>e\<in>set nev. signal_matches_event s e))"

section \<open>Sample data\<close>

text \<open>
  A day of BORME with three documents: one without any keyword, one whose download
  fails, one about a \<^verbatim>\<open>concurso\<close>. A regional page with two listings, the first with a
  link longer than the 1024 characters of \<^verbatim>\<open>events.url\<close>. A signals table with three
  companies whose weights sum to -10, 50 and 130.
\<close>

definition aragon :: string where
  "aragon = ''Arag'' @ [CHR 0xF3] @ ''n''"

definition item_noise :: item where
  "item_noise = \<lparr>titulo = Some ''Nombramientos'', identificador = Some ''BORME-A-1'',
                  url_pdf = Some ''https://boe.es/a1.pdf''\<rparr>"

definition item_broken :: item where
  "item_broken = \<lparr>titulo = Some ''Ceses'', identificador = Some ''BORME-A-2'',
                   url_pdf = Some ''https://boe.es/a2.pdf''\<rparr>"

definition item_concurso :: item where
  "item_concurso = \<lparr>titulo = Some '' ACME SL '', identificador = Some ''BORME-A-3'',
                     url_pdf = Some ''https://boe.es/a3.pdf''\<rparr>"

definition sample_pdf :: "string \<Rightarrow> error + string" where
  "sample_pdf u =
     (if u = ''https://boe.es/a1.pdf'' then Inr ''Nombramiento de administrador''
      else if u = ''https://boe.es/a3.pdf'' then Inr ''Declaracion de CONCURSO''
      else Inl FetchError)"

definition sample_strptime :: "string \<Rightarrow> error + date" where
  "sample_strptime s = (if s = ''20260203'' then Inr (2026, 2, 3) else Inl ValueError)"

definition li_long :: listing where
  "li_long = \<lparr>li_title = ''Bar'', li_url = ''https://relevoaragon.com/'' @ replicate 1024 (CHR ''a'')\<rparr>"

definition li_ok :: listing where
  "li_ok = \<lparr>li_title = ''Panaderia'', li_url = ''https://relevoaragon.com/oferta/1''\<rparr>"

definition sample_scrape :: "string \<Rightarrow> nat \<Rightarrow> error + listing list" where
  "sample_scrape u n = (if u = ''https://relevoaragon.com/'' then Inr [li_long, li_ok] else Inr [])"

definition sample_items :: "string \<Rightarrow> error + item list" where
  "sample_items s = Inr [item_noise, item_broken, item_concurso]"

definition sample_env :: env where
  "sample_env =
     \<lparr>utc_today_yyyymmdd = ''20260203'', utc_today = (2026, 2, 3), strptime = sample_strptime,
      fetch_borme_sumario = sample_items, pdf_text_from_url = sample_pdf,
      scrape_listings_basic = sample_scrape, sql_conn = Inr ()\<rparr>"

definition sample_signal :: "string \<Rightarrow> int \<Rightarrow> signal" where
  "sample_signal k w =
     \<lparr>sig_company_key = k, sig_signal_date = (2026, 2, 3), sig_signal_kind = ''explicit_listing'',
      sig_weight = w, sig_source = ''RelevoAragon'', sig_event_id = None, sig_notes = None\<rparr>"

definition sample_scores_db :: db where
  "sample_scores_db =
     empty_db\<lparr>signals :=
       [sample_signal ''a'' (- 50), sample_signal ''b'' 40, sample_signal ''c'' 40,
        sample_signal ''a'' 40, sample_signal ''b'' 15, sample_signal ''c'' 40,
        sample_signal ''b'' 15, sample_signal ''c'' 40, sample_signal ''b'' 15,
        sample_signal ''b'' 15, sample_signal ''c'' 15, sample_signal ''b'' (- 50),
        sample_signal ''c'' 15, sample_signal ''c'' 15,
        sample_signal ''c'' 15, sample_signal ''c'' (- 50)]\<rparr>"

chapter \<open>Properties\<close>

section \<open>The normalizer\<close>

lemma isspace_lower_char: "isspace (lower_char c) = isspace c"
  unfolding isspace_def lower_char_def Let_def
  by auto

lemma lower_char_idem: "lower_char (lower_char c) = lower_char c"
  unfolding lower_char_def Let_def
  by auto

lemma lower_char_space: "lower_char (CHR '' '') = CHR '' ''"
  by (simp add: lower_char_def)

lemma isspace_space: "isspace (CHR '' '')"
  by (simp add: isspace_def)

lemma last_dropWhile_keep:
  "s \<noteq> [] \<Longrightarrow> \<not> P (last s) \<Longrightarrow> dropWhile P s \<noteq> [] \<and> last (dropWhile P s) = last s"
  by (induction s) (auto split: if_splits)

lemma dropWhile_id: "s = [] \<or> \<not> P (hd s) \<Longrightarrow> dropWhile P s = s"
  by (cases s) auto

subsection \<open>Each stage keeps the string trimmed\<close>

lemma trimmed_strip: "trimmed (strip s)"
proof (cases "dropWhile isspace s = []")
  case True
  then show ?thesis by (simp add: trimmed_def strip_def del: dropWhile_eq_Nil_conv)
next
  case False
  let ?t = "dropWhile isspace s"
  let ?u = "dropWhile isspace (rev ?t)"
  have h: "\<not> isspace (hd ?t)" using False by (rule hd_dropWhile)
  have r: "rev ?t \<noteq> []" "\<not> isspace (last (rev ?t))"
    using False h by (simp_all add: last_rev del: dropWhile_eq_Nil_conv)
  have k: "?u \<noteq> [] \<and> last ?u = last (rev ?t)"
    using r by (rule last_dropWhile_keep)
  then have u: "?u \<noteq> []" and l: "last ?u = hd ?t"
    using False by (simp_all add: last_rev del: dropWhile_eq_Nil_conv)
  have n: "\<not> isspace (hd ?u)"
    using u by (rule hd_dropWhile)
  have "hd (rev ?u) = last ?u" "last (rev ?u) = hd ?u"
    using u by (simp_all only: hd_rev last_rev)
  with u l n h have "rev ?u \<noteq> [] \<and> \<not> isspace (hd (rev ?u)) \<and> \<not> isspace (last (rev ?u))"
    by (simp only: rev_is_Nil_conv simp_thms)
  then show ?thesis
    unfolding trimmed_def strip_def by blast
qed

lemma strip_trimmed: "trimmed s \<Longrightarrow> strip s = s"
  unfolding trimmed_def strip_def
  by (cases "s = []") (simp_all add: dropWhile_id hd_rev)

lemma trimmed_lower: "trimmed s \<Longrightarrow> trimmed (lower s)"
  by (auto simp: trimmed_def lower_def hd_map last_map isspace_lower_char)

lemma sub_spaces_Nil [simp]: "sub_spaces s = [] \<longleftrightarrow> s = []"
  by (cases s) auto

lemma hd_sub_spaces: "s \<noteq> [] \<Longrightarrow> \<not> isspace (hd s) \<Longrightarrow> hd (sub_spaces s) = hd s"
  by (cases s) auto

lemma last_sub_spaces: "s \<noteq> [] \<Longrightarrow> \<not> isspace (last s) \<Longrightarrow> last (sub_spaces s) = last s"
proof (induction s rule: sub_spaces.induct)
  case 1
  then show ?case by simp
next
  case (2 c s)
  show ?case
  proof (cases "isspace c")
    case True
    with "2.prems" have ne: "s \<noteq> []" by (cases s) auto
    with "2.prems" have nl: "\<not> isspace (last s)" by simp
    from last_dropWhile_keep [of s isspace] ne nl
    have d: "dropWhile isspace s \<noteq> []" "last (dropWhile isspace s) = last s" by simp_all
    with "2.IH"(1) [OF True] nl have "last (sub_spaces (dropWhile isspace s)) = last s" by simp
    with True d ne show ?thesis by (simp del: dropWhile_eq_Nil_conv)
  next
    case False
    show ?thesis
    proof (cases "s = []")
      case True
      with False show ?thesis by simp
    next
      case ne: False
      with "2.prems" have "\<not> isspace (last s)" by simp
      with "2.IH"(2) [OF False ne] have "last (sub_spaces s) = last s" .
      with False ne show ?thesis by simp
    qed
  qed
qed

lemma trimmed_sub_spaces: "trimmed s \<Longrightarrow> trimmed (sub_spaces s)"
  by (auto simp: trimmed_def hd_sub_spaces last_sub_spaces)

lemma trimmed_norm_text: "trimmed (norm_text s)"
  unfolding norm_text_def by (intro trimmed_sub_spaces trimmed_lower trimmed_strip)

subsection \<open>Whitespace runs are collapsed, letters are lower-case\<close>

lemma collapsed_Cons_nonspace: "\<not> isspace c \<Longrightarrow> collapsed (c # s) = collapsed s"
  by (cases s) auto

lemma collapsed_sub_spaces: "collapsed (sub_spaces s)"
proof (induction s rule: sub_spaces.induct)
  case 1
  then show ?case by simp
next
  case (2 c s)
  show ?case
  proof (cases "isspace c")
    case True
    let ?t = "dropWhile isspace s"
    show ?thesis
    proof (cases "?t = []")
      case True
      with \<open>isspace c\<close> show ?thesis by (simp del: dropWhile_eq_Nil_conv)
    next
      case False
      then have "\<not> isspace (hd ?t)" by (rule hd_dropWhile)
      with False have "hd (sub_spaces ?t) = hd ?t" "sub_spaces ?t \<noteq> []"
        by (simp_all add: hd_sub_spaces)
      with \<open>\<not> isspace (hd ?t)\<close> "2.IH"(1) [OF True] True show ?thesis
        by (cases "sub_spaces ?t") auto
    qed
  next
    case False
    with "2.IH"(2) show ?thesis by (simp add: collapsed_Cons_nonspace)
  qed
qed

lemma sub_spaces_collapsed: "collapsed s \<Longrightarrow> sub_spaces s = s"
  by (induction s rule: collapsed.induct) (auto simp: isspace_space)

lemma collapsed_norm_text: "collapsed (norm_text s)"
  unfolding norm_text_def by (rule collapsed_sub_spaces)

lemma lower_sub_spaces:
  "\<forall>c\<in>set s. lower_char c = c \<Longrightarrow> \<forall>c\<in>set (sub_spaces s). lower_char c = c"
proof (induction s rule: sub_spaces.induct)
  case 1
  then show ?case by simp
next
  case (2 c s)
  have "\<forall>c\<in>set (dropWhile isspace s). lower_char c = c"
    using "2.prems" by (auto dest: set_dropWhileD)
  with 2 show ?case by (auto simp: lower_char_space)
qed

lemma lower_norm_text: "lower (norm_text s) = norm_text s"
proof -
  have "\<forall>c\<in>set (lower t). lower_char c = c" for t
    by (simp add: lower_def lower_char_idem)
  then have "\<forall>c\<in>set (norm_text s). lower_char c = c"
    unfolding norm_text_def by (rule lower_sub_spaces)
  then show ?thesis
    unfolding lower_def by (simp add: map_idI)
qed

lemma norm_text_idem: "norm_text (Some (norm_text s)) = norm_text s"
proof -
  have "norm_text (Some (norm_text s)) = sub_spaces (lower (strip (norm_text s)))"
    by (simp add: norm_text_def)
  also have "\<dots> = sub_spaces (lower (norm_text s))"
    by (simp add: strip_trimmed trimmed_norm_text)
  also have "\<dots> = sub_spaces (norm_text s)"
    by (simp add: lower_norm_text)
  also have "\<dots> = norm_text s"
    by (simp add: sub_spaces_collapsed collapsed_norm_text)
  finally show ?thesis .
qed

subsection \<open>The normalizer against the specification's wording\<close>

lemma sub_spaces_word: "\<forall>c\<in>set w. \<not> isspace c \<Longrightarrow> sub_spaces (w @ r) = w @ sub_spaces r"
  by (induction w) auto

lemma split_words_dropWhile: "split_words (dropWhile isspace s) = split_words s"
  by (simp add: split_words.simps [of s] split_words.simps [of "dropWhile isspace s"])

lemma split_words_Nil: "split_words s = [] \<longleftrightarrow> dropWhile isspace s = []"
  by (simp add: split_words.simps [of s] Let_def del: dropWhile_eq_Nil_conv)

lemma sub_spaces_split:
  "s = [] \<or> \<not> isspace (last s) \<Longrightarrow> sub_spaces (dropWhile isspace s) = join_words (split_words s)"
proof (induction s rule: split_words.induct)
  case (1 s)
  let ?t = "dropWhile isspace s"
  let ?w = "takeWhile (\<lambda>c. \<not> isspace c) ?t"
  let ?r = "dropWhile (\<lambda>c. \<not> isspace c) ?t"
  show ?case
  proof (cases "s = []")
    case True
    then show ?thesis by (simp add: split_words.simps [of "[]"])
  next
    case False
    with "1.prems" have nl: "\<not> isspace (last s)" by simp
    from last_dropWhile_keep [of s isspace] False nl
    have t: "?t \<noteq> []" "last ?t = last s" by simp_all
    have sw: "split_words s = ?w # split_words ?r"
      using t(1) by (simp add: split_words.simps [of s] Let_def del: dropWhile_eq_Nil_conv)
    have "sub_spaces ?t = sub_spaces (?w @ ?r)" by simp
    also have "\<dots> = ?w @ sub_spaces ?r"
      by (rule sub_spaces_word) (auto dest: set_takeWhileD)
    finally have st: "sub_spaces ?t = ?w @ sub_spaces ?r" .
    show ?thesis
    proof (cases "?r = []")
      case True
      then have "split_words ?r = []"
        by (simp add: split_words.simps [of "[]"] del: dropWhile_eq_Nil_conv)
      with True st sw show ?thesis by (simp del: dropWhile_eq_Nil_conv)
    next
      case r: False
      then have hr: "isspace (hd ?r)"
        using hd_dropWhile [of "\<lambda>c. \<not> isspace c" ?t] by simp
      have "last ?r = last (?w @ ?r)"
        using r by (simp del: takeWhile_dropWhile_id dropWhile_eq_Nil_conv)
      then have lr: "\<not> isspace (last ?r)" using t nl by simp
      from last_dropWhile_keep [of ?r isspace] r lr
      have d: "dropWhile isspace ?r \<noteq> []" by simp
      have ih: "sub_spaces (dropWhile isspace ?r) = join_words (split_words ?r)"
        using "1.IH" [OF refl t(1)] lr by simp
      have "sub_spaces ?r = CHR '' '' # sub_spaces (dropWhile isspace ?r)"
        using r hr by (cases ?r) (simp_all del: dropWhile_eq_Nil_conv)
      moreover have "split_words ?r \<noteq> []"
        using d by (simp add: split_words_Nil del: dropWhile_eq_Nil_conv)
      ultimately show ?thesis using st sw ih
        by (cases "split_words ?r") (simp_all del: dropWhile_eq_Nil_conv)
    qed
  qed
qed

lemma takeWhile_dropWhile_append:
  "\<forall>c\<in>set sp. \<not> Q c \<Longrightarrow>
     takeWhile Q (t @ sp) = takeWhile Q t \<and> dropWhile Q (t @ sp) = dropWhile Q t @ sp"
  by (induction t) (auto simp: takeWhile_eq_Nil_iff dropWhile_eq_self_iff)

lemma split_words_trailing:
  "\<forall>c\<in>set sp. isspace c \<Longrightarrow> split_words (s @ sp) = split_words s"
proof (induction s rule: split_words.induct)
  case (1 s)
  let ?t = "dropWhile isspace s"
  show ?case
  proof (cases "?t = []")
    case True
    then have "dropWhile isspace (s @ sp) = []" using "1.prems" by simp
    then have "split_words (s @ sp) = []" by (simp only: split_words_Nil)
    moreover have "split_words s = []" using True by (simp only: split_words_Nil)
    ultimately show ?thesis by simp
  next
    case False
    then have d: "dropWhile isspace (s @ sp) = ?t @ sp"
      by (auto simp: dropWhile_append)
    have q: "\<forall>c\<in>set sp. \<not> (\<not> isspace c)" using "1.prems" by simp
    note tw = takeWhile_dropWhile_append [OF q, of ?t]
    have "split_words (s @ sp) =
            takeWhile (\<lambda>c. \<not> isspace c) ?t # split_words (dropWhile (\<lambda>c. \<not> isspace c) ?t @ sp)"
      using False d tw
      by (simp add: split_words.simps [of "s @ sp"] Let_def del: dropWhile_eq_Nil_conv)
    also have "split_words (dropWhile (\<lambda>c. \<not> isspace c) ?t @ sp) =
            split_words (dropWhile (\<lambda>c. \<not> isspace c) ?t)"
      using "1.IH" [OF refl False] "1.prems" by simp
    finally show ?thesis
      using False by (simp add: split_words.simps [of s] Let_def del: dropWhile_eq_Nil_conv)
  qed
qed

lemma split_words_strip: "split_words (strip x) = split_words x"
proof -
  let ?t = "dropWhile isspace x"
  let ?sp = "rev (takeWhile isspace (rev ?t))"
  have "strip x @ ?sp = rev (takeWhile isspace (rev ?t) @ dropWhile isspace (rev ?t))"
    by (simp only: strip_def rev_append)
  then have e: "strip x @ ?sp = ?t"
    by (simp only: takeWhile_dropWhile_id rev_rev_ident)
  have "\<forall>c\<in>set ?sp. isspace c"
    by (auto dest: set_takeWhileD)
  then have "split_words (strip x @ ?sp) = split_words (strip x)"
    by (rule split_words_trailing)
  then have "split_words ?t = split_words (strip x)"
    by (simp only: e)
  then show ?thesis by (simp only: split_words_dropWhile)
qed

lemma split_words_lower: "split_words (lower s) = map lower (split_words s)"
proof (induction s rule: split_words.induct)
  case (1 s)
  let ?t = "dropWhile isspace s"
  have c: "isspace \<circ> lower_char = isspace"
    "(\<lambda>c. \<not> isspace c) \<circ> lower_char = (\<lambda>c. \<not> isspace c)"
    by (auto simp: isspace_lower_char)
  have d: "dropWhile isspace (lower s) = lower ?t"
    by (simp add: lower_def dropWhile_map c)
  show ?case
  proof (cases "?t = []")
    case True
    then have "split_words s = []" by (simp only: split_words_Nil)
    moreover have "dropWhile isspace (lower s) = []" using d True by (simp add: lower_def)
    then have "split_words (lower s) = []" by (simp only: split_words_Nil)
    ultimately show ?thesis by simp
  next
    case False
    have ne: "lower ?t \<noteq> []"
      using False by (simp add: lower_def del: dropWhile_eq_Nil_conv)
    have tk:
      "takeWhile (\<lambda>c. \<not> isspace c) (lower ?t) = lower (takeWhile (\<lambda>c. \<not> isspace c) ?t)"
      "dropWhile (\<lambda>c. \<not> isspace c) (lower ?t) = lower (dropWhile (\<lambda>c. \<not> isspace c) ?t)"
      by (simp_all add: lower_def dropWhile_map takeWhile_map c)
    have "split_words (lower s) = lower (takeWhile (\<lambda>c. \<not> isspace c) ?t) #
            split_words (lower (dropWhile (\<lambda>c. \<not> isspace c) ?t))"
      by (subst split_words.simps) (simp only: d Let_def ne tk if_False)
    with "1.IH" [OF refl False] False show ?thesis
      by (simp add: split_words.simps [of s] Let_def del: dropWhile_eq_Nil_conv)
  qed
qed

lemma norm_text_spec: "norm_text (Some x) = normalize_spec x"
proof -
  let ?t = "lower (strip x)"
  have tr: "trimmed ?t" by (intro trimmed_lower trimmed_strip)
  then have "dropWhile isspace ?t = ?t"
    by (intro dropWhile_id) (auto simp: trimmed_def)
  moreover have "sub_spaces (dropWhile isspace ?t) = join_words (split_words ?t)"
    using tr by (intro sub_spaces_split) (auto simp: trimmed_def)
  ultimately have "norm_text (Some x) = join_words (split_words ?t)"
    by (simp add: norm_text_def)
  then show ?thesis
    by (simp add: normalize_spec_def split_words_lower split_words_strip)
qed

text \<open>
  Claim C9. For every input, \<open>norm_text\<close> trims the whitespace at both ends, lower-cases
  and collapses every run of whitespace to one space: its result is the lower-cased
  words of the input joined by single spaces, it has no whitespace at either end, every
  whitespace character in it is one space followed by a non-whitespace character, and
  lower-casing leaves it as it is. It is idempotent, and it maps \<^verbatim>\<open>None\<close> and the empty
  string to the empty string (it has no error result at all).
\<close>

theorem norm_text_normalizes:
  "norm_text None = [] \<and> norm_text (Some []) = [] \<and>
   norm_text (Some x) = normalize_spec x \<and>
   trimmed (norm_text s) \<and> collapsed (norm_text s) \<and> lower (norm_text s) = norm_text s \<and>
   norm_text (Some (norm_text s)) = norm_text s"
proof (intro conjI)
  show "norm_text None = []" "norm_text (Some []) = []"
    by (simp_all add: norm_text_def strip_def lower_def)
  show "norm_text (Some x) = normalize_spec x" by (rule norm_text_spec)
  show "trimmed (norm_text s)" by (rule trimmed_norm_text)
  show "collapsed (norm_text s)" by (rule collapsed_norm_text)
  show "lower (norm_text s) = norm_text s" by (rule lower_norm_text)
  show "norm_text (Some (norm_text s)) = norm_text s" by (rule norm_text_idem)
qed

theorem norm_text_normalizes_witness:
  "norm_text (Some (''  Fondo'' @ [CHR 0x09, CHR 0x0A] @ ''de  ARRAIG'' @ [CHR 0xD3, CHR 0xA0])) =
     ''fondo de arraig'' @ [CHR 0xF3] \<and>
   normalize_spec (''  Fondo'' @ [CHR 0x09, CHR 0x0A] @ ''de  ARRAIG'' @ [CHR 0xD3, CHR 0xA0]) =
     ''fondo de arraig'' @ [CHR 0xF3] \<and>
   trimmed (''fondo de arraig'' @ [CHR 0xF3]) \<and> collapsed (''fondo de arraig'' @ [CHR 0xF3]) \<and>
   norm_text (Some (''fondo de arraig'' @ [CHR 0xF3])) = ''fondo de arraig'' @ [CHR 0xF3]"
proof -
  let ?x = "''  Fondo'' @ [CHR 0x09, CHR 0x0A] @ ''de  ARRAIG'' @ [CHR 0xD3, CHR 0xA0]"
  let ?r = "''fondo de arraig'' @ [CHR 0xF3]"
  have e: "norm_text (Some ?x) = ?r"
    by code_simp
  note t = norm_text_normalizes [of ?x "Some ?x", unfolded e]
  from t have "?r = normalize_spec ?x" by (rule conjunct1 [OF conjunct2 [OF conjunct2]])
  moreover from t have "trimmed ?r" by blast
  moreover from t have "collapsed ?r" by blast
  moreover from t have "norm_text (Some ?r) = ?r" by blast
  ultimately show ?thesis using e by (simp only: simp_thms)
qed

section \<open>The entity key\<close>

text \<open>The digest of the RFC's test vector, as \<^verbatim>\<open>hashlib.md5(b"abc").hexdigest()\<close> gives it.\<close>

lemma md5_rfc1321_abc: "hexdigest (encode_utf8 ''abc'') = ''900150983cd24fb0d6963f7d28e17f72''"
  by code_simp

lemma length_bytes_le32: "length (bytes_le32 w) = 4"
  by (simp add: bytes_le32_def)

lemma length_md5_digest: "length (md5_digest m) = 16"
proof -
  obtain a b c d where
    "md5_blocks (0x67452301, 0xefcdab89, 0x98badcfe, 0x10325476) (md5_words (md5_pad m)) = (a, b, c, d)"
    by (rule prod_cases4)
  then show ?thesis
    by (simp only: md5_digest_def prod.case length_append length_bytes_le32)
qed

lemma length_hexdigest: "length (hexdigest m) = 32"
proof -
  have "length (concat (map hex_byte bs)) = 2 * length bs" for bs
    by (induction bs) (simp_all add: hex_byte_def)
  then show ?thesis by (simp add: hexdigest_def length_md5_digest)
qed

lemma length_make_company_key: "length (make_company_key n p c) = 32"
  by (simp add: make_company_key_def length_hexdigest)

lemma utf8_char_ne: "utf8_char c \<noteq> []"
  by (simp add: utf8_char_def Let_def)

lemma map_unat_utf8_char:
  "map unat (utf8_char c) =
     (if of_char c < (128::nat) then [of_char c] else [192 + of_char c div 64, 128 + of_char c mod 64])"
proof -
  have "(of_char c :: nat) < 256" by simp
  then have "192 + (of_char c :: nat) div 64 < 256" "128 + (of_char c :: nat) mod 64 < 256"
    by linarith+
  then show ?thesis
    by (simp add: utf8_char_def Let_def unat_of_nat del: of_nat_add of_nat_numeral)
qed

lemma utf8_char_inj_prefix: "utf8_char c @ r = utf8_char d @ r' \<Longrightarrow> c = d"
proof -
  assume "utf8_char c @ r = utf8_char d @ r'"
  then have "map unat (utf8_char c) @ map unat r = map unat (utf8_char d) @ map unat r'"
    by (metis map_append)
  then have "(of_char c :: nat) = of_char d"
    unfolding map_unat_utf8_char
    by (auto split: if_splits simp del: of_char_eq_iff) (metis div_mult_mod_eq)
  then show ?thesis by simp
qed

lemma encode_utf8_inj: "encode_utf8 a = encode_utf8 b \<Longrightarrow> a = b"
proof (induction a arbitrary: b)
  case Nil
  then show ?case
    by (cases b) (simp_all add: encode_utf8_def utf8_char_ne)
next
  case (Cons c a)
  show ?case
  proof (cases b)
    case Nil
    with Cons.prems show ?thesis by (simp add: encode_utf8_def utf8_char_ne)
  next
    case (Cons d b')
    with Cons.prems have e: "utf8_char c @ encode_utf8 a = utf8_char d @ encode_utf8 b'"
      by (simp add: encode_utf8_def)
    then have "c = d" by (rule utf8_char_inj_prefix)
    with e Cons.IH Cons show ?thesis by simp
  qed
qed

lemma split_at_first:
  "x \<notin> set a \<Longrightarrow> x \<notin> set a' \<Longrightarrow> a @ x # r = a' @ x # r' \<Longrightarrow> a = a' \<and> r = r'"
proof (induction a arbitrary: a')
  case Nil
  then show ?case by (cases a') auto
next
  case (Cons c a)
  then show ?case by (cases a') auto
qed

lemma key_base_inj:
  assumes "CHR ''|'' \<notin> set (norm_text (Some n))" "CHR ''|'' \<notin> set (norm_text (Some p))"
    and "CHR ''|'' \<notin> set (norm_text (Some n'))" "CHR ''|'' \<notin> set (norm_text (Some p'))"
    and "key_base n p c = key_base n' p' c'"
  shows "norm_text (Some n) = norm_text (Some n') \<and> norm_text (Some p) = norm_text (Some p') \<and>
         norm_text (Some c) = norm_text (Some c')"
proof -
  let ?b = "CHR ''|''"
  from assms(5)
  have "norm_text (Some n) @ ?b # (norm_text (Some p) @ ?b # norm_text (Some c)) =
        norm_text (Some n') @ ?b # (norm_text (Some p') @ ?b # norm_text (Some c'))"
    by (simp add: key_base_def)
  with split_at_first [OF assms(1) assms(3)]
  have 1: "norm_text (Some n) = norm_text (Some n')"
    and 2: "norm_text (Some p) @ ?b # norm_text (Some c) = norm_text (Some p') @ ?b # norm_text (Some c')"
    by blast+
  from split_at_first [OF assms(2) assms(4) 2]
  have "norm_text (Some p) = norm_text (Some p')" "norm_text (Some c) = norm_text (Some c')"
    by simp_all
  with 1 show ?thesis by simp
qed

text \<open>
  Claim C6, as the code has it. \<open>make_company_key\<close> is a function of the composite string
  \<^verbatim>\<open>norm_text(name)|norm_text(province)|norm_text(ccaa)\<close> alone: two triples whose fields
  normalize to the same strings get the same key. Two triples that differ in a normalized
  field have different composite strings, hence different inputs to MD5, when the
  normalized names and provinces contain no \<^verbatim>\<open>|\<close>. (The key is the MD5 digest of the
  composite, so distinct composites have distinct keys up to a collision of MD5.)
\<close>

theorem make_company_key_stable:
  "(norm_text (Some n) = norm_text (Some n') \<and> norm_text (Some p) = norm_text (Some p') \<and>
    norm_text (Some c) = norm_text (Some c') \<longrightarrow>
      make_company_key n p c = make_company_key n' p' c') \<and>
   make_company_key n p c = hexdigest (encode_utf8 (key_base n p c)) \<and>
   (CHR ''|'' \<notin> set (norm_text (Some n)) \<and> CHR ''|'' \<notin> set (norm_text (Some p)) \<and>
    CHR ''|'' \<notin> set (norm_text (Some n')) \<and> CHR ''|'' \<notin> set (norm_text (Some p')) \<and>
    (norm_text (Some n), norm_text (Some p), norm_text (Some c)) \<noteq>
      (norm_text (Some n'), norm_text (Some p'), norm_text (Some c')) \<longrightarrow>
      encode_utf8 (key_base n p c) \<noteq> encode_utf8 (key_base n' p' c'))"
proof (intro conjI impI)
  assume "norm_text (Some n) = norm_text (Some n') \<and> norm_text (Some p) = norm_text (Some p') \<and>
    norm_text (Some c) = norm_text (Some c')"
  then show "make_company_key n p c = make_company_key n' p' c'"
    by (simp add: make_company_key_def key_base_def)
next
  show "make_company_key n p c = hexdigest (encode_utf8 (key_base n p c))"
    by (simp add: make_company_key_def)
next
  assume a: "CHR ''|'' \<notin> set (norm_text (Some n)) \<and> CHR ''|'' \<notin> set (norm_text (Some p)) \<and>
    CHR ''|'' \<notin> set (norm_text (Some n')) \<and> CHR ''|'' \<notin> set (norm_text (Some p')) \<and>
    (norm_text (Some n), norm_text (Some p), norm_text (Some c)) \<noteq>
      (norm_text (Some n'), norm_text (Some p'), norm_text (Some c'))"
  show "encode_utf8 (key_base n p c) \<noteq> encode_utf8 (key_base n' p' c')"
  proof
    assume "encode_utf8 (key_base n p c) = encode_utf8 (key_base n' p' c')"
    then have "key_base n p c = key_base n' p' c'" by (rule encode_utf8_inj)
    with a have "norm_text (Some n) = norm_text (Some n') \<and> norm_text (Some p) = norm_text (Some p') \<and>
         norm_text (Some c) = norm_text (Some c')"
      by (intro key_base_inj) simp_all
    with a show False by simp
  qed
qed

theorem make_company_key_stable_witness:
  "make_company_key ''  ACME   S.L. '' '' '' ''Aragon'' = make_company_key ''acme s.l.'' '''' '' ARAGON'' \<and>
   encode_utf8 (key_base ''  ACME   S.L. '' '' '' ''Aragon'') \<noteq>
     encode_utf8 (key_base ''acme s.l.'' ''Teruel'' '' ARAGON'')"
proof -
  have e: "norm_text (Some ''  ACME   S.L. '') = ''acme s.l.''" "norm_text (Some ''acme s.l.'') = ''acme s.l.''"
    "norm_text (Some '' '') = []" "norm_text (Some '''') = []" "norm_text (Some ''Teruel'') = ''teruel''"
    "norm_text (Some ''Aragon'') = ''aragon''" "norm_text (Some '' ARAGON'') = ''aragon''"
    by code_simp+
  have "make_company_key ''  ACME   S.L. '' '' '' ''Aragon'' = make_company_key ''acme s.l.'' '''' '' ARAGON''"
    using make_company_key_stable [of "''  ACME   S.L. ''" "''acme s.l.''" "'' ''" "''''" "''Aragon''" "'' ARAGON''"]
    by (simp only: e simp_thms)
  moreover
  have "encode_utf8 (key_base ''  ACME   S.L. '' '' '' ''Aragon'') \<noteq>
     encode_utf8 (key_base ''acme s.l.'' ''Teruel'' '' ARAGON'')"
    using make_company_key_stable [of "''  ACME   S.L. ''" "''acme s.l.''" "'' ''" "''Teruel''" "''Aragon''" "'' ARAGON''"]
    by (simp add: e)
  ultimately show ?thesis by simp
qed

text \<open>
  Claim C6 as stated fails: the triples \<^verbatim>\<open>("a|b", "", "c")\<close> and \<^verbatim>\<open>("a", "b|", "c")\<close> differ
  in the normalized name and province and have the same composite \<^verbatim>\<open>a|b||c\<close>, hence the
  same key, \<^verbatim>\<open>363b1774ebcb0857d859b9ae098ff28a\<close>.
\<close>

theorem make_company_key_bar_collision:
  "norm_text (Some '''') \<noteq> norm_text (Some ''b|'') \<and>
   make_company_key ''a|b'' '''' ''c'' = make_company_key ''a'' ''b|'' ''c'' \<and>
   make_company_key ''a|b'' '''' ''c'' = ''363b1774ebcb0857d859b9ae098ff28a''"
proof -
  have "norm_text (Some '''') \<noteq> norm_text (Some ''b|'')"
    by code_simp
  moreover have b: "key_base ''a|b'' '''' ''c'' = ''a|b||c''" "key_base ''a'' ''b|'' ''c'' = ''a|b||c''"
    by code_simp+
  moreover have "hexdigest (encode_utf8 ''a|b||c'') = ''363b1774ebcb0857d859b9ae098ff28a''"
    by code_simp
  ultimately show ?thesis
    by (simp only: make_company_key_def b simp_thms)
qed

section \<open>The signal detector\<close>

text \<open>\<open>re_search\<close> holds when the pattern matches at some position of the text.\<close>

lemma search_from_iff:
  "search_from r prev s \<longleftrightarrow>
     (\<exists>u v. s = u @ v \<and> match_here r (if u = [] then prev else Some (last u)) v)"
proof (induction s arbitrary: prev)
  case Nil
  then show ?case by simp
next
  case (Cons x s)
  show ?case
  proof
    assume "search_from r prev (x # s)"
    then consider "match_here r prev (x # s)" | "search_from r (Some x) s" by auto
    then show "\<exists>u v. x # s = u @ v \<and> match_here r (if u = [] then prev else Some (last u)) v"
    proof cases
      case 1
      then have "x # s = [] @ (x # s) \<and> match_here r (if [] = ([]::string) then prev else Some (last [])) (x # s)"
        by simp
      then show ?thesis by blast
    next
      case 2
      then obtain u v where "s = u @ v" "match_here r (if u = [] then Some x else Some (last u)) v"
        using Cons.IH by blast
      then have "x # s = (x # u) @ v \<and> match_here r (if x # u = [] then prev else Some (last (x # u))) v"
        by (cases "u = []") simp_all
      then show ?thesis by blast
    qed
  next
    assume "\<exists>u v. x # s = u @ v \<and> match_here r (if u = [] then prev else Some (last u)) v"
    then obtain u v where uv: "x # s = u @ v" "match_here r (if u = [] then prev else Some (last u)) v"
      by blast
    show "search_from r prev (x # s)"
    proof (cases u)
      case Nil
      with uv show ?thesis by (cases v) auto
    next
      case (Cons y u')
      with uv have "s = u' @ v" "match_here r (if u' = [] then Some x else Some (last u')) v"
        by (auto split: if_splits)
      then have "search_from r (Some x) s" using Cons.IH by blast
      then show ?thesis by simp
    qed
  qed
qed

lemma re_search_iff:
  "re_search r s \<longleftrightarrow> (\<exists>u v. s = u @ v \<and> match_here r (last_char u) v)"
  by (simp add: re_search_def search_from_iff last_char_def)

lemma list_ex_re_search:
  "list_ex (\<lambda>p. re_search p s) ps \<longleftrightarrow>
     (\<exists>p\<in>set ps. \<exists>u v. s = u @ v \<and> match_here p (last_char u) v)"
  by (simp add: list_ex_iff re_search_iff)

lemma re_searchI: "match_here r (last_char u) v \<Longrightarrow> re_search r (u @ v)"
  unfolding re_search_iff by blast

lemma match_accent:
  assumes "a = CHR ''o'' \<or> a = o_acute" "\<not> word_before (last_char u)" "\<not> word_next v"
    and "w \<noteq> []" "is_word (hd w)"
  shows "re_search (Bnd # lit w @ [o_class] @ lit ''n'' @ [Bnd]) (u @ w @ [a] @ ''n'' @ v)"
proof -
  have m: "match_here (lit w @ r) prev (w @ s) = match_here r (if w = [] then prev else Some (last w)) s"
    for r prev s
    by (induction w arbitrary: prev) (simp_all add: lit_def)
  have "match_here ([o_class] @ lit ''n'' @ [Bnd]) (Some (last w)) ([a] @ ''n'' @ v)"
    using assms(1,3) by (auto simp: lit_def o_class_def o_acute_def is_word_def)
  then have "match_here (lit w @ [o_class] @ lit ''n'' @ [Bnd]) (last_char u) (w @ [a] @ ''n'' @ v)"
    using assms(4) by (simp only: m if_False)
  moreover have "word_next (w @ [a] @ ''n'' @ v)"
    using assms(4,5) by (cases w) simp_all
  ultimately have "match_here (Bnd # lit w @ [o_class] @ lit ''n'' @ [Bnd]) (last_char u) (w @ [a] @ ''n'' @ v)"
    using assms(2) by simp
  then show ?thesis by (rule re_searchI)
qed

lemma accent_tolerant:
  assumes "a = CHR ''o'' \<or> a = o_acute" "\<not> word_before (last_char u)" "\<not> word_next v"
  shows "list_ex (\<lambda>p. re_search p (u @ ''cesi'' @ [a] @ ''n'' @ v)) KEYWORDS_POS"
    and "list_ex (\<lambda>p. re_search p (u @ ''transmisi'' @ [a] @ ''n'' @ v)) KEYWORDS_POS"
    and "list_ex (\<lambda>p. re_search p (u @ ''jubilaci'' @ [a] @ ''n'' @ v)) KEYWORDS_POS"
    and "list_ex (\<lambda>p. re_search p (u @ ''disoluci'' @ [a] @ ''n'' @ v)) KEYWORDS_NEG"
    and "list_ex (\<lambda>p. re_search p (u @ ''liquidaci'' @ [a] @ ''n'' @ v)) KEYWORDS_NEG"
proof -
  note m = match_accent [OF assms]
  show "list_ex (\<lambda>p. re_search p (u @ ''cesi'' @ [a] @ ''n'' @ v)) KEYWORDS_POS"
    using m [of "''cesi''"] by (simp add: KEYWORDS_POS_def is_word_def)
  show "list_ex (\<lambda>p. re_search p (u @ ''transmisi'' @ [a] @ ''n'' @ v)) KEYWORDS_POS"
    using m [of "''transmisi''"] by (simp add: KEYWORDS_POS_def is_word_def)
  show "list_ex (\<lambda>p. re_search p (u @ ''jubilaci'' @ [a] @ ''n'' @ v)) KEYWORDS_POS"
    using m [of "''jubilaci''"] by (simp add: KEYWORDS_POS_def is_word_def)
  show "list_ex (\<lambda>p. re_search p (u @ ''disoluci'' @ [a] @ ''n'' @ v)) KEYWORDS_NEG"
    using m [of "''disoluci''"] by (simp add: KEYWORDS_NEG_def is_word_def)
  show "list_ex (\<lambda>p. re_search p (u @ ''liquidaci'' @ [a] @ ''n'' @ v)) KEYWORDS_NEG"
    using m [of "''liquidaci''"] by (simp add: KEYWORDS_NEG_def is_word_def)
qed

lemma detect_signals_sel:
  "pos (detect_signals t) = list_ex (\<lambda>p. re_search p (norm_text t)) KEYWORDS_POS"
  "gov (detect_signals t) = list_ex (\<lambda>p. re_search p (norm_text t)) KEYWORDS_GOV"
  "neg (detect_signals t) = list_ex (\<lambda>p. re_search p (norm_text t)) KEYWORDS_NEG"
  by (simp_all add: detect_signals_def Let_def)

lemma detect_signals_empty:
  "detect_signals None = \<lparr>pos = False, gov = False, neg = False\<rparr>"
  "detect_signals (Some []) = \<lparr>pos = False, gov = False, neg = False\<rparr>"
  by code_simp+

text \<open>
  Claim C8. Each flag of \<open>detect_signals\<close> holds exactly when a pattern of its class matches
  at some position of the normalized text. The five keywords written with an accented
  \<^verbatim>\<open>o\<close> match in both spellings wherever they stand as a word. The empty text (and
  \<^verbatim>\<open>None\<close>) gives three false flags, there is no error result; a text matched by a
  negative pattern only gives \<^verbatim>\<open>{False, False, True}\<close>, and a text matched by a positive
  and a governance pattern and no negative one gives \<^verbatim>\<open>{True, True, False}\<close>.
\<close>

theorem detect_signals_flags:
  "(pos (detect_signals t) \<longleftrightarrow>
      (\<exists>p\<in>set KEYWORDS_POS. \<exists>u v. norm_text t = u @ v \<and> match_here p (last_char u) v)) \<and>
   (gov (detect_signals t) \<longleftrightarrow>
      (\<exists>p\<in>set KEYWORDS_GOV. \<exists>u v. norm_text t = u @ v \<and> match_here p (last_char u) v)) \<and>
   (neg (detect_signals t) \<longleftrightarrow>
      (\<exists>p\<in>set KEYWORDS_NEG. \<exists>u v. norm_text t = u @ v \<and> match_here p (last_char u) v)) \<and>
   ((a = CHR ''o'' \<or> a = o_acute) \<and> \<not> word_before (last_char u') \<and> \<not> word_next v' \<longrightarrow>
      (norm_text t = u' @ ''cesi'' @ [a] @ ''n'' @ v' \<longrightarrow> pos (detect_signals t)) \<and>
      (norm_text t = u' @ ''transmisi'' @ [a] @ ''n'' @ v' \<longrightarrow> pos (detect_signals t)) \<and>
      (norm_text t = u' @ ''jubilaci'' @ [a] @ ''n'' @ v' \<longrightarrow> pos (detect_signals t)) \<and>
      (norm_text t = u' @ ''disoluci'' @ [a] @ ''n'' @ v' \<longrightarrow> neg (detect_signals t)) \<and>
      (norm_text t = u' @ ''liquidaci'' @ [a] @ ''n'' @ v' \<longrightarrow> neg (detect_signals t))) \<and>
   detect_signals None = \<lparr>pos = False, gov = False, neg = False\<rparr> \<and>
   detect_signals (Some []) = \<lparr>pos = False, gov = False, neg = False\<rparr> \<and>
   (list_ex (\<lambda>p. re_search p (norm_text t)) KEYWORDS_NEG \<and>
    \<not> list_ex (\<lambda>p. re_search p (norm_text t)) KEYWORDS_POS \<and>
    \<not> list_ex (\<lambda>p. re_search p (norm_text t)) KEYWORDS_GOV \<longrightarrow>
      detect_signals t = \<lparr>pos = False, gov = False, neg = True\<rparr>) \<and>
   (list_ex (\<lambda>p. re_search p (norm_text t)) KEYWORDS_POS \<and>
    list_ex (\<lambda>p. re_search p (norm_text t)) KEYWORDS_GOV \<and>
    \<not> list_ex (\<lambda>p. re_search p (norm_text t)) KEYWORDS_NEG \<longrightarrow>
      detect_signals t = \<lparr>pos = True, gov = True, neg = False\<rparr>)"
proof (intro conjI)
  show "pos (detect_signals t) \<longleftrightarrow>
      (\<exists>p\<in>set KEYWORDS_POS. \<exists>u v. norm_text t = u @ v \<and> match_here p (last_char u) v)"
    by (simp only: detect_signals_sel list_ex_re_search)
  show "gov (detect_signals t) \<longleftrightarrow>
      (\<exists>p\<in>set KEYWORDS_GOV. \<exists>u v. norm_text t = u @ v \<and> match_here p (last_char u) v)"
    by (simp only: detect_signals_sel list_ex_re_search)
  show "neg (detect_signals t) \<longleftrightarrow>
      (\<exists>p\<in>set KEYWORDS_NEG. \<exists>u v. norm_text t = u @ v \<and> match_here p (last_char u) v)"
    by (simp only: detect_signals_sel list_ex_re_search)
  show "(a = CHR ''o'' \<or> a = o_acute) \<and> \<not> word_before (last_char u') \<and> \<not> word_next v' \<longrightarrow>
      (norm_text t = u' @ ''cesi'' @ [a] @ ''n'' @ v' \<longrightarrow> pos (detect_signals t)) \<and>
      (norm_text t = u' @ ''transmisi'' @ [a] @ ''n'' @ v' \<longrightarrow> pos (detect_signals t)) \<and>
      (norm_text t = u' @ ''jubilaci'' @ [a] @ ''n'' @ v' \<longrightarrow> pos (detect_signals t)) \<and>
      (norm_text t = u' @ ''disoluci'' @ [a] @ ''n'' @ v' \<longrightarrow> neg (detect_signals t)) \<and>
      (norm_text t = u' @ ''liquidaci'' @ [a] @ ''n'' @ v' \<longrightarrow> neg (detect_signals t))"
  proof (intro impI)
    assume "(a = CHR ''o'' \<or> a = o_acute) \<and> \<not> word_before (last_char u') \<and> \<not> word_next v'"
    then have h: "a = CHR ''o'' \<or> a = o_acute" "\<not> word_before (last_char u')" "\<not> word_next v'"
      by simp_all
    show "(norm_text t = u' @ ''cesi'' @ [a] @ ''n'' @ v' \<longrightarrow> pos (detect_signals t)) \<and>
      (norm_text t = u' @ ''transmisi'' @ [a] @ ''n'' @ v' \<longrightarrow> pos (detect_signals t)) \<and>
      (norm_text t = u' @ ''jubilaci'' @ [a] @ ''n'' @ v' \<longrightarrow> pos (detect_signals t)) \<and>
      (norm_text t = u' @ ''disoluci'' @ [a] @ ''n'' @ v' \<longrightarrow> neg (detect_signals t)) \<and>
      (norm_text t = u' @ ''liquidaci'' @ [a] @ ''n'' @ v' \<longrightarrow> neg (detect_signals t))"
      using accent_tolerant [OF h] by (auto simp only: detect_signals_sel)
  qed
  show "detect_signals None = \<lparr>pos = False, gov = False, neg = False\<rparr>"
    "detect_signals (Some []) = \<lparr>pos = False, gov = False, neg = False\<rparr>"
    by (rule detect_signals_empty)+
  show "list_ex (\<lambda>p. re_search p (norm_text t)) KEYWORDS_NEG \<and>
    \<not> list_ex (\<lambda>p. re_search p (norm_text t)) KEYWORDS_POS \<and>
    \<not> list_ex (\<lambda>p. re_search p (norm_text t)) KEYWORDS_GOV \<longrightarrow>
      detect_signals t = \<lparr>pos = False, gov = False, neg = True\<rparr>"
    by (simp add: detect_signals_def Let_def)
  show "list_ex (\<lambda>p. re_search p (norm_text t)) KEYWORDS_POS \<and>
    list_ex (\<lambda>p. re_search p (norm_text t)) KEYWORDS_GOV \<and>
    \<not> list_ex (\<lambda>p. re_search p (norm_text t)) KEYWORDS_NEG \<longrightarrow>
      detect_signals t = \<lparr>pos = True, gov = True, neg = False\<rparr>"
    by (simp add: detect_signals_def Let_def)
qed

theorem detect_signals_flags_witness:
  "detect_signals (Some ''Auto de CONCURSO'') = \<lparr>pos = False, gov = False, neg = True\<rparr> \<and>
   pos (detect_signals (Some (''La CESI'' @ [O_acute] @ ''N''))) \<and>
   pos (detect_signals (Some ''la cesion'')) \<and>
   detect_signals (Some ''Junta general:  traspaso'') = \<lparr>pos = True, gov = True, neg = False\<rparr>"
proof -
  have 1: "detect_signals (Some ''Auto de CONCURSO'') = \<lparr>pos = False, gov = False, neg = True\<rparr>"
  proof -
    have "list_ex (\<lambda>p. re_search p (norm_text (Some ''Auto de CONCURSO''))) KEYWORDS_NEG"
      "\<not> list_ex (\<lambda>p. re_search p (norm_text (Some ''Auto de CONCURSO''))) KEYWORDS_POS"
      "\<not> list_ex (\<lambda>p. re_search p (norm_text (Some ''Auto de CONCURSO''))) KEYWORDS_GOV"
      by code_simp+
    with detect_signals_flags [of "Some ''Auto de CONCURSO''"] show ?thesis by blast
  qed
  have 2: "pos (detect_signals (Some (''La CESI'' @ [O_acute] @ ''N'')))"
  proof -
    have "norm_text (Some (''La CESI'' @ [O_acute] @ ''N'')) = ''la '' @ ''cesi'' @ [o_acute] @ ''n'' @ []"
      by code_simp
    moreover have "\<not> word_before (last_char ''la '')" "\<not> word_next []"
      by code_simp+
    ultimately show ?thesis
      using detect_signals_flags [of "Some (''La CESI'' @ [O_acute] @ ''N'')" o_acute "''la ''" "[]"]
      by blast
  qed
  have 3: "pos (detect_signals (Some ''la cesion''))"
  proof -
    have "norm_text (Some ''la cesion'') = ''la '' @ ''cesi'' @ [CHR ''o''] @ ''n'' @ []"
      by code_simp
    moreover have "\<not> word_before (last_char ''la '')" "\<not> word_next []"
      by code_simp+
    ultimately show ?thesis
      using detect_signals_flags [of "Some ''la cesion''" "CHR ''o''" "''la ''" "[]"]
      by blast
  qed
  have 4: "detect_signals (Some ''Junta general:  traspaso'') = \<lparr>pos = True, gov = True, neg = False\<rparr>"
  proof -
    have "list_ex (\<lambda>p. re_search p (norm_text (Some ''Junta general:  traspaso''))) KEYWORDS_POS"
      "list_ex (\<lambda>p. re_search p (norm_text (Some ''Junta general:  traspaso''))) KEYWORDS_GOV"
      "\<not> list_ex (\<lambda>p. re_search p (norm_text (Some ''Junta general:  traspaso''))) KEYWORDS_NEG"
      by code_simp+
    with detect_signals_flags [of "Some ''Junta general:  traspaso''"] show ?thesis by blast
  qed
  from 1 2 3 4 show ?thesis by (simp only: simp_thms)
qed

section \<open>The aggregator\<close>

lemma map_of_agg:
  "map_of (agg sigs) k =
     (if k \<in> sig_company_key ` set sigs then Some (weight_sum sigs k) else None)"
  by (simp add: agg_def weight_sum_def map_of_map_restrict restrict_map_def)

lemma distinct_agg: "distinct (map fst (agg sigs))"
  by (simp add: agg_def comp_def)

lemma fold_merge_score:
  "distinct (map fst a) \<Longrightarrow>
     fold (merge_score v) a m k =
       (case map_of a k of
          None \<Rightarrow> m k
        | Some raw \<Rightarrow> Some \<lparr>score = norm_score raw, band = banded (norm_score raw), score_version = v\<rparr>)"
proof (induction a arbitrary: m)
  case Nil
  then show ?case by simp
next
  case (Cons x a)
  then have d: "distinct (map fst a)" and n: "fst x \<notin> fst ` set a" by simp_all
  show ?case
  proof (cases "k = fst x")
    case True
    with n have "map_of a k = None" by (simp add: map_of_eq_None_iff)
    with True Cons.IH [OF d] show ?thesis by (simp add: merge_score_def)
  next
    case False
    with Cons.IH [OF d] show ?thesis by (simp add: merge_score_def)
  qed
qed

lemma recompute_scores_Inr:
  assumes "recompute_scores v d = Inr d'"
  shows "d' = d\<lparr>scores := fold (merge_score v) (agg (signals d)) (scores d)\<rparr>"
  using assms by (simp add: recompute_scores_def Let_def split: if_splits)

lemma recompute_scores_lookup:
  assumes "recompute_scores v d = Inr d'"
  shows "scores d' k =
     (if owns_signal d k
      then Some \<lparr>score = norm_score (weight_sum (signals d) k),
                 band = banded (norm_score (weight_sum (signals d) k)), score_version = v\<rparr>
      else scores d k)"
  unfolding recompute_scores_Inr [OF assms]
  by (auto simp: fold_merge_score distinct_agg map_of_agg owns_signal_def list_ex_iff image_iff)

lemma recompute_scores_frame:
  assumes "recompute_scores v d = Inr d'"
  shows "companies d' = companies d" "events d' = events d" "signals d' = signals d"
    "next_event_id d' = next_event_id d" "next_company_id d' = next_company_id d"
  unfolding recompute_scores_Inr [OF assms] by simp_all

section \<open>The statements of the store\<close>

lemma adds_refl: "adds d d [] []"
  by (simp add: adds_def)

lemma adds_trans: "adds d d1 e1 s1 \<Longrightarrow> adds d1 d2 e2 s2 \<Longrightarrow> adds d d2 (e1 @ e2) (s1 @ s2)"
  by (simp add: adds_def)

lemma upsert_company_adds: "upsert_company k n p c d = Inr d' \<Longrightarrow> adds d d' [] []"
  by (auto simp: upsert_company_def adds_def split: if_splits option.splits)

lemma insert_event_adds:
  "insert_event ev d = Inr (i, d') \<Longrightarrow> i = next_event_id d \<and> adds d d' [(next_event_id d, ev)] []"
  by (auto simp: insert_event_def adds_def split: if_splits)

lemma insert_signal_adds: "insert_signal sg d = Inr d' \<Longrightarrow> adds d d' [] [sg]"
  by (auto simp: insert_signal_def adds_def split: if_splits)

lemma insert_signal_if_adds:
  "insert_signal_if b sg d = Inr d' \<Longrightarrow> adds d d' [] (if b then [sg] else [])"
  by (auto simp: insert_signal_if_def adds_refl dest: insert_signal_adds)

lemma borme_insert_signals_adds:
  assumes "borme_insert_signals sg k dt i d = (r, d')"
  shows "\<exists>ns. adds d d' [] ns \<and>
           (\<forall>s\<in>set ns. sig_company_key s = k \<and> sig_signal_date s = dt \<and> sig_event_id s = Some i) \<and>
           (r = None \<longrightarrow> map sig_weight ns =
              (if pos sg then [40] else []) @ (if gov sg then [15] else []) @ (if neg sg then [- 50] else []))"
proof -
  let ?s1 = "\<lparr>sig_company_key = k, sig_signal_date = dt,
              sig_signal_kind = ''explicit_or_text_relevo'', sig_weight = 40,
              sig_source = ''BORME'', sig_event_id = Some i,
              sig_notes = Some (''Keywords positivas (traspaso/cesi'' @ [CHR 0xF3] @
                                ''n/jubilaci'' @ [CHR 0xF3] @ ''n/relevo).'')\<rparr>"
  let ?s2 = "\<lparr>sig_company_key = k, sig_signal_date = dt,
                   sig_signal_kind = ''junta_o_cambio'', sig_weight = 15,
                   sig_source = ''BORME'', sig_event_id = Some i,
                   sig_notes = Some ''Keywords de junta/cambio accionario.''\<rparr>"
  let ?s3 = "\<lparr>sig_company_key = k, sig_signal_date = dt,
                        sig_signal_kind = ''negativa_distressed'', sig_weight = - 50,
                        sig_source = ''BORME'', sig_event_id = Some i,
                        sig_notes = Some (''Keywords negativas (disoluci'' @ [CHR 0xF3] @
                                          ''n/concurso/liquidaci'' @ [CHR 0xF3] @ ''n).'')\<rparr>"
  show ?thesis
  proof (cases "insert_signal_if (pos sg) ?s1 d")
    case (Inl e)
    with assms have "d' = d" by (simp add: borme_insert_signals_def)
    then have "adds d d' [] []" by (simp add: adds_refl)
    moreover from Inl assms have "r \<noteq> None" by (auto simp: borme_insert_signals_def)
    ultimately show ?thesis by (intro exI [of _ "[]"]) simp
  next
    case (Inr d1)
    note a1 = insert_signal_if_adds [OF Inr]
    show ?thesis
    proof (cases "insert_signal_if (gov sg) ?s2 d1")
      case (Inl e)
      with Inr assms have "d' = d1" "r \<noteq> None" by (auto simp: borme_insert_signals_def)
      with a1 show ?thesis by (intro exI [of _ "if pos sg then [?s1] else []"]) simp
    next
      case d2: (Inr d2)
      note a2 = adds_trans [OF a1 insert_signal_if_adds [OF d2]]
      show ?thesis
      proof (cases "insert_signal_if (neg sg) ?s3 d2")
        case (Inl e)
        with Inr d2 assms have "d' = d2" "r \<noteq> None" by (auto simp: borme_insert_signals_def)
        with a2 show ?thesis
          by (intro exI [of _ "(if pos sg then [?s1] else []) @ (if gov sg then [?s2] else [])"]) simp
      next
        case d3: (Inr d3)
        note a3 = adds_trans [OF a2 insert_signal_if_adds [OF d3]]
        from Inr d2 d3 assms have "d' = d3" by (auto simp: borme_insert_signals_def)
        with a3 show ?thesis
          by (intro exI [of _ "((if pos sg then [?s1] else []) @ (if gov sg then [?s2] else [])) @
                (if neg sg then [?s3] else [])"]) simp
      qed
    qed
  qed
qed

section \<open>One BORME record\<close>

lemma adds_events: "adds d d' nev ns \<Longrightarrow> events d' = events d @ nev"
  and adds_signals: "adds d d' nev ns \<Longrightarrow> signals d' = signals d @ ns"
  and adds_scores: "adds d d' nev ns \<Longrightarrow> scores d' = scores d"
  by (simp_all add: adds_def)

lemma adds_next: "adds d d' [] ns \<Longrightarrow> next_event_id d' = next_event_id d"
  by (simp add: adds_def)

lemma borme_store_adds:
  assumes "borme_store env rd title ident u text sg d = (r, d')"
  shows "(r \<noteq> None \<and> adds d d' [] []) \<or>
         (\<exists>ev ns. adds d d' [(next_event_id d, ev)] ns \<and>
            (\<forall>s\<in>set ns. signal_matches_event s (next_event_id d, ev)) \<and>
            (r = None \<longrightarrow> map sig_weight ns =
              (if pos sg then [40] else []) @ (if gov sg then [15] else []) @ (if neg sg then [- 50] else [])))"
proof -
  let ?name = "strip (if take 220 title = [] then ''Empresa (BORME)'' else take 220 title)"
  let ?k = "make_company_key ?name [] []"
  show ?thesis
  proof (cases "upsert_company ?k ?name [] [] d")
    case (Inl e)
    with assms show ?thesis by (auto simp: borme_store_def Let_def adds_refl)
  next
    case (Inr d1)
    note a1 = upsert_company_adds [OF Inr]
    show ?thesis
    proof (cases "strptime env rd")
      case (Inl e)
      with Inr assms a1 show ?thesis by (auto simp: borme_store_def Let_def)
    next
      case dt: (Inr dt)
      let ?ev = "\<lparr>ev_source = ''BORME'', ev_source_ref = Some ident,
                              ev_event_date = dt, ev_event_type = ''borme_pdf'',
                              ev_title = take 500 title, ev_url = u,
                              ev_raw_excerpt = (if text \<noteq> [] then take 1200 text else []),
                              ev_company_key = ?k\<rparr>"
      show ?thesis
      proof (cases "insert_event ?ev d1")
        case (Inl e)
        with Inr dt assms a1 show ?thesis by (auto simp: borme_store_def Let_def)
      next
        case ie: (Inr p)
        obtain i d2 where p: "p = (i, d2)" by (cases p)
        from insert_event_adds [OF ie [unfolded p]]
        have i: "i = next_event_id d1" and a2: "adds d1 d2 [(next_event_id d1, ?ev)] []" by simp_all
        from a1 have n: "next_event_id d1 = next_event_id d" by (rule adds_next)
        from Inr dt ie p assms have "borme_insert_signals sg ?k dt i d2 = (r, d')"
          by (simp add: borme_store_def Let_def)
        from borme_insert_signals_adds [OF this] obtain ns where
          a3: "adds d2 d' [] ns"
          and m: "\<forall>s\<in>set ns. sig_company_key s = ?k \<and> sig_signal_date s = dt \<and> sig_event_id s = Some i"
          and w: "r = None \<longrightarrow> map sig_weight ns =
              (if pos sg then [40] else []) @ (if gov sg then [15] else []) @ (if neg sg then [- 50] else [])"
          by blast
        from adds_trans [OF adds_trans [OF a1 a2] a3]
        have "adds d d' [(next_event_id d, ?ev)] ns" by (simp add: n)
        moreover from m have "\<forall>s\<in>set ns. signal_matches_event s (next_event_id d, ?ev)"
          by (simp add: signal_matches_event_def i n)
        ultimately show ?thesis using w by blast
      qed
    qed
  qed
qed

lemma borme_try_noise: "noise_doc env it \<Longrightarrow> borme_try env rd it d = (Inr Continue, d)"
  by (auto simp: noise_doc_def borme_try_def Let_def split: option.splits sum.splits)

lemma borme_step_noise: "noise_doc env it \<Longrightarrow> borme_step env rd it st = st"
  by (cases st) (simp add: borme_step_def borme_try_noise)

lemma borme_try_adds:
  assumes "borme_try env rd it d = (res, d')"
  shows "(res \<noteq> Inr Processed \<and> adds d d' [] []) \<or>
         (\<not> noise_doc env it \<and>
          (\<exists>ev ns. adds d d' [(next_event_id d, ev)] ns \<and>
            (\<forall>s\<in>set ns. signal_matches_event s (next_event_id d, ev)) \<and>
            (res = Inr Processed \<longrightarrow> ns \<noteq> [])))"
proof (cases "url_pdf it")
  case None
  with assms show ?thesis by (auto simp: borme_try_def Let_def adds_refl)
next
  case (Some u)
  show ?thesis
  proof (cases "pdf_text_from_url env u")
    case (Inl e)
    with Some assms show ?thesis by (auto simp: borme_try_def Let_def adds_refl)
  next
    case (Inr tx)
    let ?sg = "detect_signals (Some tx)"
    show ?thesis
    proof (cases "pos ?sg \<or> gov ?sg \<or> neg ?sg")
      case False
      with Some Inr assms show ?thesis by (auto simp: borme_try_def Let_def adds_refl)
    next
      case True
      then have nn: "\<not> noise_doc env it" using Some Inr by (auto simp: noise_doc_def)
      let ?title = "case titulo it of None \<Rightarrow> [] | Some t \<Rightarrow> t"
      let ?ident = "case identificador it of None \<Rightarrow> [] | Some i \<Rightarrow> i"
      obtain r d2 where st: "borme_store env rd ?title ?ident u tx ?sg d = (r, d2)"
        by (cases "borme_store env rd ?title ?ident u tx ?sg d")
      with True Some Inr assms have res: "d' = d2" "res = (case r of Some e \<Rightarrow> Inl e | None \<Rightarrow> Inr Processed)"
        by (auto simp: borme_try_def Let_def split: option.splits)
      from borme_store_adds [OF st] show ?thesis
      proof
        assume "r \<noteq> None \<and> adds d d2 [] []"
        with res show ?thesis by auto
      next
        assume "\<exists>ev ns. adds d d2 [(next_event_id d, ev)] ns \<and>
            (\<forall>s\<in>set ns. signal_matches_event s (next_event_id d, ev)) \<and>
            (r = None \<longrightarrow> map sig_weight ns =
              (if pos ?sg then [40] else []) @ (if gov ?sg then [15] else []) @ (if neg ?sg then [- 50] else []))"
        then obtain ev ns where a: "adds d d2 [(next_event_id d, ev)] ns"
          and m: "\<forall>s\<in>set ns. signal_matches_event s (next_event_id d, ev)"
          and w: "r = None \<longrightarrow> map sig_weight ns =
              (if pos ?sg then [40] else []) @ (if gov ?sg then [15] else []) @ (if neg ?sg then [- 50] else [])"
          by blast
        have "res = Inr Processed \<longrightarrow> ns \<noteq> []"
        proof
          assume "res = Inr Processed"
          with res have "r = None" by (cases r) simp_all
          with w True show "ns \<noteq> []" by (auto split: if_splits)
        qed
        with a m nn res show ?thesis by blast
      qed
    qed
  qed
qed

section \<open>How a record ends does not depend on the tables\<close>



lemma insert_signal_if_indep:
  "isl (insert_signal_if b sg d) = isl (insert_signal_if b sg d0)"
  "insert_signal_if b sg d = Inl e \<Longrightarrow> insert_signal_if b sg d0 = Inl e"
  by (auto simp: insert_signal_if_def insert_signal_def split: if_splits)

lemma insert_signal_if_cases:
  obtains (fail) "\<And>d. insert_signal_if b sg d = Inl DbError"
  | (ok) "\<And>d. \<exists>d'. insert_signal_if b sg d = Inr d'"
  by (cases "b \<and> (32 < length (sig_company_key sg) \<or> 64 < length (sig_signal_kind sg) \<or>
         \<not> fits_int (sig_weight sg) \<or> 64 < length (sig_source sg) \<or>
         \<not> fits_opt 1024 (sig_notes sg))")
    (auto simp: insert_signal_if_def insert_signal_def)







section \<open>One listing, and the listings of one source\<close>

lemma listing_body_fits:
  assumes "listing_fits source ccaa li"
  shows "listing_body today source ccaa li d =
     (None,
      d\<lparr>companies := (companies d)(make_company_key (listing_name li) [] ccaa \<mapsto>
           (case companies d (make_company_key (listing_name li) [] ccaa) of
              Some row \<Rightarrow> row\<lparr>company_name := listing_name li, company_province := [], company_ccaa := ccaa\<rparr>
            | None \<Rightarrow> \<lparr>company_id = next_company_id d, company_name = listing_name li,
                        company_province = [], company_ccaa = ccaa\<rparr>)),
        next_company_id :=
          (case companies d (make_company_key (listing_name li) [] ccaa) of
             Some row \<Rightarrow> next_company_id d | None \<Rightarrow> next_company_id d + 1),
        events := events d @
          [(next_event_id d,
            listing_event today source ccaa (listing_name li) (li_url li)
              (make_company_key (listing_name li) [] ccaa))],
        next_event_id := next_event_id d + 1,
        signals := signals d @
          [listing_signal today source (make_company_key (listing_name li) [] ccaa) (next_event_id d)]\<rparr>)"
  using assms
  by (cases "companies d (make_company_key (listing_name li) [] ccaa)")
    (simp_all add: listing_body_def listing_fits_def listing_name_def Let_def upsert_company_def
      insert_event_def insert_signal_def listing_event_def listing_signal_def
      length_make_company_key fits_int_def)

lemma listing_body_not_fits:
  assumes "\<not> listing_fits source ccaa li"
  shows "fst (listing_body today source ccaa li d) = Some DbError \<and>
         signals (snd (listing_body today source ccaa li d)) = signals d \<and>
         events (snd (listing_body today source ccaa li d)) = events d \<and>
         scores (snd (listing_body today source ccaa li d)) = scores d \<and>
         next_event_id (snd (listing_body today source ccaa li d)) = next_event_id d"
  using assms
  by (cases "companies d (make_company_key (listing_name li) [] ccaa)")
    (auto simp: listing_body_def listing_fits_def listing_name_def Let_def upsert_company_def
      insert_event_def insert_signal_def listing_event_def listing_signal_def
      length_make_company_key fits_int_def)

lemma listing_ok_iff: "listing_ok today source ccaa li = listing_fits source ccaa li"
  using listing_body_fits [of source ccaa li today empty_db]
    listing_body_not_fits [of source ccaa li today empty_db]
  by (cases "listing_fits source ccaa li") (simp_all add: listing_ok_def)

lemma listing_body_adds:
  assumes "listing_body today source ccaa li d = (r, d')"
  shows "(r = Some DbError \<and> \<not> listing_ok today source ccaa li \<and> adds d d' [] []) \<or>
         (r = None \<and> listing_ok today source ccaa li \<and>
          adds d d'
            [(next_event_id d, listing_event today source ccaa (listing_name li) (li_url li)
                (make_company_key (listing_name li) [] ccaa))]
            [listing_signal today source (make_company_key (listing_name li) [] ccaa) (next_event_id d)])"
proof (cases "listing_fits source ccaa li")
  case True
  with assms listing_body_fits [OF True, of today d] show ?thesis
    by (auto simp: listing_ok_iff adds_def)
next
  case False
  with assms listing_body_not_fits [OF False, of today d] show ?thesis
    by (auto simp: listing_ok_iff adds_def)
qed

lemma listing_signal_matches:
  "signal_matches_event (listing_signal today source k i) (i, listing_event today source ccaa name url k)"
  by (simp add: signal_matches_event_def listing_signal_def listing_event_def)

lemma listings_loop_adds:
  "listings_loop today source ccaa lis (d, n) = (r, d', n') \<Longrightarrow>
     n' = n + length (takeWhile (listing_ok today source ccaa) lis) \<and>
     (r = None \<longleftrightarrow> list_all (listing_ok today source ccaa) lis) \<and>
     (\<exists>nev ns. adds d d' nev ns \<and> length nev = length ns \<and>
        length ns = length (takeWhile (listing_ok today source ccaa) lis) \<and>
        (\<forall>s\<in>set ns. \<exists>e\<in>set nev. signal_matches_event s e))"
proof (induction lis arbitrary: d n)
  case Nil
  then show ?case by (auto simp: adds_refl)
next
  case (Cons li lis)
  obtain r1 d1 where b: "listing_body today source ccaa li d = (r1, d1)"
    by (cases "listing_body today source ccaa li d")
  from listing_body_adds [OF b] show ?case
  proof
    assume f: "r1 = Some DbError \<and> \<not> listing_ok today source ccaa li \<and> adds d d1 [] []"
    with b Cons.prems have "r = Some DbError" "d' = d1" "n' = n" by simp_all
    with f show ?thesis by auto
  next
    let ?e = "(next_event_id d, listing_event today source ccaa (listing_name li) (li_url li)
                (make_company_key (listing_name li) [] ccaa))"
    let ?s = "listing_signal today source (make_company_key (listing_name li) [] ccaa) (next_event_id d)"
    assume s: "r1 = None \<and> listing_ok today source ccaa li \<and> adds d d1 [?e] [?s]"
    with b Cons.prems have "listings_loop today source ccaa lis (d1, n + 1) = (r, d', n')" by simp
    from Cons.IH [OF this] obtain nev ns where
      n: "n' = n + 1 + length (takeWhile (listing_ok today source ccaa) lis)"
      and r: "r = None \<longleftrightarrow> list_all (listing_ok today source ccaa) lis"
      and a: "adds d1 d' nev ns" and l: "length nev = length ns"
        "length ns = length (takeWhile (listing_ok today source ccaa) lis)"
      and m: "\<forall>s\<in>set ns. \<exists>e\<in>set nev. signal_matches_event s e"
      by auto
    from s a have "adds d d' ([?e] @ nev) ([?s] @ ns)" by (blast intro: adds_trans)
    moreover have "\<forall>s\<in>set ([?s] @ ns). \<exists>e\<in>set ([?e] @ nev). signal_matches_event s e"
      using m listing_signal_matches by auto
    ultimately show ?thesis using n r l s
      by (intro conjI exI [of _ "[?e] @ nev"] exI [of _ "[?s] @ ns"]) simp_all
  qed
qed

section \<open>The loops and the runs\<close>

lemma extends_refl: "extends d d"
  unfolding extends_def by (intro exI [of _ "[]"]) (simp add: adds_refl)

lemma extends_trans:
  assumes "extends d d1" "extends d1 d2"
  shows "extends d d2"
proof -
  from assms obtain e1 s1 e2 s2 where
    a: "adds d d1 e1 s1" "adds d1 d2 e2 s2"
    and m: "\<forall>s\<in>set s1. \<exists>e\<in>set e1. signal_matches_event s e"
      "\<forall>s\<in>set s2. \<exists>e\<in>set e2. signal_matches_event s e"
    unfolding extends_def by blast
  from a have "adds d d2 (e1 @ e2) (s1 @ s2)" by (rule adds_trans)
  moreover from m have "\<forall>s\<in>set (s1 @ s2). \<exists>e\<in>set (e1 @ e2). signal_matches_event s e"
    by auto
  ultimately show ?thesis unfolding extends_def by blast
qed

lemma extendsI:
  "adds d d' nev ns \<Longrightarrow> (\<forall>s\<in>set ns. \<exists>e\<in>set nev. signal_matches_event s e) \<Longrightarrow> extends d d'"
  unfolding extends_def by blast

lemma borme_try_extends:
  assumes "borme_try env rd it d = (res, d')"
  shows "extends d d'"
  using borme_try_adds [OF assms]
proof
  assume "res \<noteq> Inr Processed \<and> adds d d' [] []"
  then show ?thesis by (intro extendsI [of d d' "[]" "[]"]) simp_all
next
  assume "\<not> noise_doc env it \<and>
    (\<exists>ev ns. adds d d' [(next_event_id d, ev)] ns \<and>
      (\<forall>s\<in>set ns. signal_matches_event s (next_event_id d, ev)) \<and>
      (res = Inr Processed \<longrightarrow> ns \<noteq> []))"
  then obtain ev ns where "adds d d' [(next_event_id d, ev)] ns"
    "\<forall>s\<in>set ns. signal_matches_event s (next_event_id d, ev)" by blast
  then show ?thesis by (intro extendsI [of d d' "[(next_event_id d, ev)]" ns]) simp_all
qed

lemma borme_step_extends: "borme_step env rd it (d, n, out) = (d', n', out') \<Longrightarrow> extends d d'"
  by (cases "borme_try env rd it d")
    (auto simp: borme_step_def split: sum.splits outcome.splits dest: borme_try_extends)

lemma borme_fold_extends:
  "fold (borme_step env rd) its (d, n, out) = (d', n', out') \<Longrightarrow> extends d d'"
proof (induction its arbitrary: d n out)
  case Nil
  then show ?case by (simp add: extends_refl)
next
  case (Cons it its)
  obtain d1 n1 out1 where s: "borme_step env rd it (d, n, out) = (d1, n1, out1)"
    by (cases "borme_step env rd it (d, n, out)")
  with Cons.prems have "fold (borme_step env rd) its (d1, n1, out1) = (d', n', out')" by simp
  from extends_trans [OF borme_step_extends [OF s] Cons.IH [OF this]] show ?case .
qed

lemma listings_loop_error:
  "listings_loop today source ccaa lis (d, n) = (r, d', n') \<Longrightarrow> r = None \<or> r = Some DbError"
proof (induction lis arbitrary: d n)
  case Nil
  then show ?case by simp
next
  case (Cons li lis)
  obtain r1 d1 where b: "listing_body today source ccaa li d = (r1, d1)"
    by (cases "listing_body today source ccaa li d")
  from listing_body_adds [OF b] Cons show ?case
    using b by (auto split: option.splits)
qed

lemma regional_step_effect:
  assumes "regional_step env today src (d, n, out) = (d', n', out')"
  shows "n' = n + regional_count env today src \<and> out' = out @ regional_lines env today src \<and>
         extends d d'"
proof (cases "scrape_listings_basic env (src_list_url src) 25")
  case (Inl e)
  with assms show ?thesis
    by (auto simp: regional_step_def regional_count_def regional_lines_def extends_refl)
next
  case (Inr lis)
  obtain r d1 n1 where l: "listings_loop today (src_source src) (src_ccaa src) lis (d, n) = (r, d1, n1)"
    by (cases "listings_loop today (src_source src) (src_ccaa src) lis (d, n)")
  from listings_loop_adds [OF l] have
    n: "n1 = n + length (takeWhile (listing_ok today (src_source src) (src_ccaa src)) lis)"
    and r: "r = None \<longleftrightarrow> list_all (listing_ok today (src_source src) (src_ccaa src)) lis"
    and e: "extends d d1"
    unfolding extends_def by blast+
  from listings_loop_error [OF l] have "r = None \<or> r = Some DbError" .
  with Inr l assms n r e show ?thesis
    by (auto simp: regional_step_def regional_count_def regional_lines_def Let_def)
qed

lemma regional_fold_effect:
  "fold (regional_step env today) srcs (d, n, out) = (d', n', out') \<Longrightarrow>
     n' = n + sum_list (map (regional_count env today) srcs) \<and>
     out' = out @ concat (map (regional_lines env today) srcs) \<and> extends d d'"
proof (induction srcs arbitrary: d n out)
  case Nil
  then show ?case by (simp add: extends_refl)
next
  case (Cons src srcs)
  obtain d1 n1 out1 where s: "regional_step env today src (d, n, out) = (d1, n1, out1)"
    by (cases "regional_step env today src (d, n, out)")
  with Cons.prems have "fold (regional_step env today) srcs (d1, n1, out1) = (d', n', out')" by simp
  from Cons.IH [OF this] regional_step_effect [OF s] show ?case
    by (auto intro: extends_trans)
qed

lemma etl_borme_Inr:
  assumes "etl_borme env rd0 cap d = Inr r"
  obtains items d1 out1 where
    "fetch_borme_sumario env (run_date_of env rd0) = Inr items"
    "fold (borme_step env (run_date_of env rd0)) (borme_items cap items)
       (d, 0, [BormeStart (run_date_of env rd0) (length items) (length (filter has_pdf items)) cap]) =
     (d1, run_count r, out1)"
    "recompute_scores default_version d1 = Inr (run_db r)"
    "run_log r = out1 @ [BormeDone (run_count r)]"
proof -
  let ?rd = "run_date_of env rd0"
  from assms obtain items where f: "fetch_borme_sumario env ?rd = Inr items"
    by (cases "fetch_borme_sumario env ?rd") (auto simp: etl_borme_def run_date_of_def Let_def)
  from assms f obtain u where c: "sql_conn env = Inr u"
    by (cases "sql_conn env") (auto simp: etl_borme_def run_date_of_def Let_def)
  obtain d1 n out1 where l: "fold (borme_step env ?rd) (borme_items cap items)
       (d, 0, [BormeStart ?rd (length items) (length (filter has_pdf items)) cap]) = (d1, n, out1)"
    by (rule prod_cases3)
  from assms f c l obtain d2 where rc: "recompute_scores default_version d1 = Inr d2"
    by (cases "recompute_scores default_version d1")
      (auto simp: etl_borme_def run_date_of_def borme_items_def Let_def)
  from assms f c l rc have "r = \<lparr>run_db = d2, run_log = out1 @ [BormeDone n], run_count = n\<rparr>"
    by (auto simp: etl_borme_def run_date_of_def borme_items_def Let_def)
  with f l rc that show ?thesis by simp
qed


lemma regional_run_Inr:
  assumes "regional_run env srcs d = Inr r"
  obtains d1 out1 where
    "fold (regional_step env (utc_today env)) srcs (d, 0, []) = (d1, run_count r, out1)"
    "recompute_scores default_version d1 = Inr (run_db r)"
    "run_log r = out1 @ [RegDone (run_count r)]"
proof -
  from assms obtain u where c: "sql_conn env = Inr u"
    by (cases "sql_conn env") (auto simp: regional_run_def Let_def)
  obtain d1 n out1 where l: "fold (regional_step env (utc_today env)) srcs (d, 0, []) = (d1, n, out1)"
    by (rule prod_cases3)
  from assms c l obtain d2 where rc: "recompute_scores default_version d1 = Inr d2"
    by (cases "recompute_scores default_version d1") (auto simp: regional_run_def Let_def)
  from assms c l rc have "r = \<lparr>run_db = d2, run_log = out1 @ [RegDone n], run_count = n\<rparr>"
    by (auto simp: regional_run_def Let_def)
  with l rc that show ?thesis by simp
qed


section \<open>Scores and signals along the reachable tables\<close>

lemma owns_signal_adds: "adds d d' nev ns \<Longrightarrow> owns_signal d k \<Longrightarrow> owns_signal d' k"
  by (auto simp: adds_def owns_signal_def list_ex_iff)

lemma no_score_adds:
  assumes "adds d d' nev ns" "\<And>k. \<not> owns_signal d k \<Longrightarrow> scores d k = None"
  shows "\<not> owns_signal d' k \<Longrightarrow> scores d' k = None"
  using assms owns_signal_adds [OF assms(1), of k] by (auto simp: adds_def)

lemma no_score_extends:
  assumes "extends d d'" "\<And>k. \<not> owns_signal d k \<Longrightarrow> scores d k = None"
  shows "\<not> owns_signal d' k \<Longrightarrow> scores d' k = None"
  using assms unfolding extends_def by (blast intro: no_score_adds)

lemma no_score_recompute:
  assumes "recompute_scores v d = Inr d'" "\<And>k. \<not> owns_signal d k \<Longrightarrow> scores d k = None"
  shows "\<not> owns_signal d' k \<Longrightarrow> scores d' k = None"
  using recompute_scores_lookup [OF assms(1), of k] recompute_scores_frame(3) [OF assms(1)] assms(2) [of k]
  by (simp add: owns_signal_def split: if_splits)

lemma reachable_no_score: "reachable d \<Longrightarrow> \<not> owns_signal d k \<Longrightarrow> scores d k = None"
proof (induction arbitrary: k rule: reachable.induct)
  case init
  then show ?case by (simp add: empty_db_def)
next
  case (company d ckey name province ccaa d')
  from upsert_company_adds [OF company.hyps(2)] company.IH company.prems show ?case
    by (rule no_score_adds)
next
  case (event d ev i d')
  from insert_event_adds [OF event.hyps(2)] have "adds d d' [(next_event_id d, ev)] []" by simp
  from this event.IH event.prems show ?case by (rule no_score_adds)
next
  case (signal d sg d')
  from insert_signal_adds [OF signal.hyps(2)] signal.IH signal.prems show ?case
    by (rule no_score_adds)
next
  case (aggregate d version d')
  from aggregate.hyps(2) aggregate.IH aggregate.prems show ?case
    by (rule no_score_recompute)
next
  case (borme d env run_date cap r)
  from borme.hyps(2) obtain items d1 out1 where
    f: "fold (borme_step env (run_date_of env run_date)) (borme_items cap items)
       (d, 0, [BormeStart (run_date_of env run_date) (length items) (length (filter has_pdf items)) cap]) =
     (d1, run_count r, out1)"
    and rc: "recompute_scores default_version d1 = Inr (run_db r)"
    by (rule etl_borme_Inr)
  have "\<not> owns_signal d1 k \<Longrightarrow> scores d1 k = None" for k
    using borme_fold_extends [OF f] borme.IH by (rule no_score_extends)
  with rc show ?case using borme.prems by (rule no_score_recompute)
next
  case (regional d env r)
  from regional.hyps(2) obtain d1 out1 where
    f: "fold (regional_step env (utc_today env)) REGIONAL_SOURCES (d, 0, []) = (d1, run_count r, out1)"
    and rc: "recompute_scores default_version d1 = Inr (run_db r)"
    unfolding etl_regional_def by (rule regional_run_Inr)
  from regional_fold_effect [OF f] have "extends d d1" by simp
  then have "\<not> owns_signal d1 k \<Longrightarrow> scores d1 k = None" for k
    using regional.IH by (rule no_score_extends)
  with rc show ?case using regional.prems by (rule no_score_recompute)
qed

lemma borme_fold_noise:
  "\<forall>it\<in>set its. noise_doc env it \<Longrightarrow> fold (borme_step env rd) its st = st"
  by (induction its arbitrary: st) (simp_all add: borme_step_noise)


lemma recompute_extends:
  assumes "extends d d1" "recompute_scores v d1 = Inr d2"
  shows "\<exists>nev ns. events d2 = events d @ nev \<and> signals d2 = signals d @ ns \<and>
           (\<forall>s\<in>set ns. \<exists>e\<in>set nev. signal_matches_event s e)"
  using assms recompute_scores_frame(2,3) [OF assms(2)]
  unfolding extends_def adds_def by auto

section \<open>The sample data, evaluated\<close>

lemma sample_detect:
  "detect_signals (Some ''Nombramiento de administrador'') = \<lparr>pos = False, gov = False, neg = False\<rparr>"
  "detect_signals (Some ''Declaracion de CONCURSO'') = \<lparr>pos = False, gov = False, neg = True\<rparr>"
  by code_simp+

lemma sample_strip: "strip '' ACME SL '' = ''ACME SL''"
  by code_simp

lemma sample_noise: "noise_doc sample_env item_noise"
  by (simp add: noise_doc_def sample_env_def item_noise_def sample_pdf_def sample_detect)


lemma sample_borme_run:
  "etl_borme sample_env [] 50 empty_db =
     Inr \<lparr>run_db =
            \<lparr>companies = [make_company_key ''ACME SL'' [] [] \<mapsto>
                 \<lparr>company_id = 1, company_name = ''ACME SL'', company_province = [],
                  company_ccaa = []\<rparr>],
             next_company_id = 2,
             events = [(1, \<lparr>ev_source = ''BORME'', ev_source_ref = Some ''BORME-A-3'',
                             ev_event_date = (2026, 2, 3), ev_event_type = ''borme_pdf'',
                             ev_title = '' ACME SL '', ev_url = ''https://boe.es/a3.pdf'',
                             ev_raw_excerpt = ''Declaracion de CONCURSO'',
                             ev_company_key = make_company_key ''ACME SL'' [] []\<rparr>)],
             next_event_id = 2,
             signals = [\<lparr>sig_company_key = make_company_key ''ACME SL'' [] [],
                          sig_signal_date = (2026, 2, 3), sig_signal_kind = ''negativa_distressed'',
                          sig_weight = - 50, sig_source = ''BORME'', sig_event_id = Some 1,
                          sig_notes = Some (''Keywords negativas (disoluci'' @ [CHR 0xF3] @
                                            ''n/concurso/liquidaci'' @ [CHR 0xF3] @ ''n).'')\<rparr>],
             scores = [make_company_key ''ACME SL'' [] [] \<mapsto>
                         \<lparr>score = 0, band = ''Cold'', score_version = ''v0_rules_2026_02''\<rparr>]\<rparr>,
           run_log = [BormeStart ''20260203'' 3 3 50, BormeError (Some ''BORME-A-2'') FetchError,
                      BormeDone 1],
           run_count = 1\<rparr>"
  by (simp add: etl_borme_def borme_step_def borme_try_def borme_store_def borme_insert_signals_def
      insert_signal_if_def insert_signal_def insert_event_def upsert_company_def
      recompute_scores_def agg_def merge_score_def norm_score_def banded_def default_version_def
      py_take_def has_pdf_def sample_items_def
      sample_env_def item_noise_def item_broken_def item_concurso_def sample_pdf_def
      sample_strptime_def sample_detect sample_strip empty_db_def Let_def
      length_make_company_key fits_int_def)

lemma sample_regional_run:
  "etl_regional sample_env empty_db =
     Inr \<lparr>run_db =
            \<lparr>companies = [make_company_key ''Bar'' [] aragon \<mapsto>
                 \<lparr>company_id = 1, company_name = ''Bar'', company_province = [],
                  company_ccaa = aragon\<rparr>],
             next_company_id = 2, events = [], next_event_id = 1, signals = [],
             scores = Map.empty\<rparr>,
           run_log = [RegSource ''RelevoAragon'' aragon 2, RegError ''RelevoAragon'' DbError,
                      RegSource ''RELEVACyL'' (''Castilla y Le'' @ [CHR 0xF3] @ ''n'') 0,
                      RegSource ''RelevoCantabria'' ''Cantabria'' 0, RegDone 0],
           run_count = 0\<rparr>"
  by (simp add: etl_regional_def regional_run_def regional_step_def listing_body_def
      listing_event_def listing_signal_def
      insert_signal_def insert_event_def upsert_company_def
      recompute_scores_def agg_def default_version_def REGIONAL_SOURCES_def
      sample_env_def sample_scrape_def li_long_def li_ok_def aragon_def empty_db_def Let_def
      length_make_company_key fits_int_def)


lemma sample_sums:
  "weight_sum (signals sample_scores_db) ''a'' = - 10"
  "weight_sum (signals sample_scores_db) ''b'' = 50"
  "weight_sum (signals sample_scores_db) ''c'' = 130"
  "owns_signal sample_scores_db ''a''" "owns_signal sample_scores_db ''b''"
  "owns_signal sample_scores_db ''c''"
  by (simp_all add: weight_sum_def owns_signal_def sample_scores_db_def sample_signal_def empty_db_def)

lemma sample_recompute:
  "recompute_scores default_version sample_scores_db =
     Inr (projr (recompute_scores default_version sample_scores_db))"
  by (simp add: recompute_scores_def agg_def default_version_def sample_scores_db_def
      sample_signal_def empty_db_def fits_int_def Let_def)

lemma sample_borme_Inr:
  "etl_borme sample_env [] 50 empty_db = Inr (projr (etl_borme sample_env [] 50 empty_db))"
  by (simp add: sample_borme_run)

lemma sample_regional_Inr:
  "etl_regional sample_env empty_db = Inr (projr (etl_regional sample_env empty_db))"
  by (simp add: sample_regional_run)

lemma sample_try_noise:
  "borme_try sample_env ''20260203'' item_noise empty_db = (Inr Continue, empty_db)"
  using sample_noise by (rule borme_try_noise)

lemma sample_env_sel:
  "fetch_borme_sumario sample_env = sample_items" "sql_conn sample_env = Inr ()"
  "utc_today_yyyymmdd sample_env = ''20260203''" "utc_today sample_env = (2026, 2, 3)"
  "pdf_text_from_url sample_env = sample_pdf" "scrape_listings_basic sample_env = sample_scrape"
  by (simp_all add: sample_env_def)

lemma sample_has_pdf: "has_pdf item_noise" "has_pdf item_broken" "has_pdf item_concurso"
  by (simp_all add: has_pdf_def item_noise_def item_broken_def item_concurso_def)

lemma recompute_scores_empty: "recompute_scores v empty_db = Inr empty_db"
  by (simp add: recompute_scores_def agg_def empty_db_def)

lemma sample_borme_run_cap1:
  "etl_borme sample_env [] 1 empty_db =
     Inr \<lparr>run_db = empty_db, run_log = [BormeStart ''20260203'' 3 3 1, BormeDone 0], run_count = 0\<rparr>"
  by (simp add: etl_borme_def borme_step_def sample_try_noise recompute_scores_empty
      py_take_def sample_has_pdf sample_items_def sample_env_sel)



lemma empty_db_sel:
  "events empty_db = []" "signals empty_db = []" "next_event_id empty_db = 1"
  "companies empty_db = Map.empty" "scores empty_db = Map.empty" "next_company_id empty_db = 1"
  by (simp_all add: empty_db_def)


lemma sample_try_concurso:
  "events (snd (borme_try sample_env ''20260203'' item_concurso empty_db)) =
     [(1, \<lparr>ev_source = ''BORME'', ev_source_ref = Some ''BORME-A-3'',
            ev_event_date = (2026, 2, 3), ev_event_type = ''borme_pdf'',
            ev_title = '' ACME SL '', ev_url = ''https://boe.es/a3.pdf'',
            ev_raw_excerpt = ''Declaracion de CONCURSO'',
            ev_company_key = make_company_key ''ACME SL'' [] []\<rparr>)]"
  by (simp add: borme_try_def borme_store_def borme_insert_signals_def
      insert_signal_if_def insert_signal_def insert_event_def upsert_company_def
      sample_env_def item_concurso_def sample_pdf_def
      sample_strptime_def sample_detect sample_strip empty_db_def Let_def
      length_make_company_key fits_int_def)

lemma sample_listing_fits: "listing_fits ''RelevoAragon'' aragon li_ok"
  by (simp add: listing_fits_def listing_name_def li_ok_def aragon_def)


chapter \<open>The claims of the specification\<close>

section \<open>The aggregator\<close>

text \<open>
  Claim C4. For every company owning at least one signal, \<open>recompute_scores\<close>, when its
  statement succeeds, writes a score row whose score is the signed sum of all of the
  company's weights clamped to the interval from 0 to 100, whose band follows the
  thresholds 75, 60 and 45 checked from the highest, and whose version is the one
  passed. Sums of -10, 50 and 130 give the scores 0, 50 and 100 and the bands
  \<^verbatim>\<open>Cold\<close>, \<^verbatim>\<open>Watchlist\<close> and \<^verbatim>\<open>Hot\<close>.
\<close>

theorem recompute_scores_clamps:
  "recompute_scores v d = Inr d' \<and> owns_signal d k \<longrightarrow>
     (\<exists>sc. scores d' k = Some sc \<and>
        score sc = max 0 (min 100 (weight_sum (signals d) k)) \<and>
        band sc = (if score sc \<ge> 75 then ''Hot'' else if score sc \<ge> 60 then ''Warm''
                   else if score sc \<ge> 45 then ''Watchlist'' else ''Cold'') \<and>
        score_version sc = v \<and>
        (weight_sum (signals d) k = - 10 \<longrightarrow> score sc = 0 \<and> band sc = ''Cold'') \<and>
        (weight_sum (signals d) k = 50 \<longrightarrow> score sc = 50 \<and> band sc = ''Watchlist'') \<and>
        (weight_sum (signals d) k = 130 \<longrightarrow> score sc = 100 \<and> band sc = ''Hot''))"
proof (intro impI)
  assume a: "recompute_scores v d = Inr d' \<and> owns_signal d k"
  let ?t = "weight_sum (signals d) k"
  define sc where "sc = \<lparr>score = norm_score ?t, band = banded (norm_score ?t), score_version = v\<rparr>"
  from a have r: "recompute_scores v d = Inr d'" and o: "owns_signal d k" by simp_all
  have 1: "scores d' k = Some sc"
    using recompute_scores_lookup [OF r, of k] o by (simp add: sc_def)
  have 2: "score sc = max 0 (min 100 ?t)"
    by (simp add: sc_def norm_score_def)
  have 3: "band sc = (if score sc \<ge> 75 then ''Hot'' else if score sc \<ge> 60 then ''Warm''
                   else if score sc \<ge> 45 then ''Watchlist'' else ''Cold'')"
    by (simp add: sc_def banded_def)
  have 4: "score_version sc = v"
    by (simp add: sc_def)
  have 5: "?t = - 10 \<longrightarrow> score sc = 0 \<and> band sc = ''Cold''"
    and 6: "?t = 50 \<longrightarrow> score sc = 50 \<and> band sc = ''Watchlist''"
    and 7: "?t = 130 \<longrightarrow> score sc = 100 \<and> band sc = ''Hot''"
    by (simp_all add: sc_def norm_score_def banded_def)
  from 1 2 3 4 5 6 7 show "\<exists>sc. scores d' k = Some sc \<and>
        score sc = max 0 (min 100 (weight_sum (signals d) k)) \<and>
        band sc = (if score sc \<ge> 75 then ''Hot'' else if score sc \<ge> 60 then ''Warm''
                   else if score sc \<ge> 45 then ''Watchlist'' else ''Cold'') \<and>
        score_version sc = v \<and>
        (weight_sum (signals d) k = - 10 \<longrightarrow> score sc = 0 \<and> band sc = ''Cold'') \<and>
        (weight_sum (signals d) k = 50 \<longrightarrow> score sc = 50 \<and> band sc = ''Watchlist'') \<and>
        (weight_sum (signals d) k = 130 \<longrightarrow> score sc = 100 \<and> band sc = ''Hot'')"
    by blast
qed

theorem recompute_scores_clamps_witness:
  "owns_signal sample_scores_db ''a'' \<and>
   weight_sum (signals sample_scores_db) ''a'' = - 10 \<and>
   weight_sum (signals sample_scores_db) ''b'' = 50 \<and>
   weight_sum (signals sample_scores_db) ''c'' = 130 \<and>
   map_option score (scores (projr (recompute_scores default_version sample_scores_db)) ''a'') = Some 0 \<and>
   map_option band (scores (projr (recompute_scores default_version sample_scores_db)) ''a'') = Some ''Cold'' \<and>
   map_option score (scores (projr (recompute_scores default_version sample_scores_db)) ''b'') = Some 50 \<and>
   map_option band (scores (projr (recompute_scores default_version sample_scores_db)) ''b'') = Some ''Watchlist'' \<and>
   map_option score (scores (projr (recompute_scores default_version sample_scores_db)) ''c'') = Some 100 \<and>
   map_option band (scores (projr (recompute_scores default_version sample_scores_db)) ''c'') = Some ''Hot''"
proof -
  let ?d' = "projr (recompute_scores default_version sample_scores_db)"
  note t = recompute_scores_clamps [of default_version sample_scores_db ?d']
  from t [of "''a''"] sample_recompute sample_sums
  have a: "map_option score (scores ?d' ''a'') = Some 0 \<and> map_option band (scores ?d' ''a'') = Some ''Cold''"
    by auto
  from t [of "''b''"] sample_recompute sample_sums
  have b: "map_option score (scores ?d' ''b'') = Some 50 \<and> map_option band (scores ?d' ''b'') = Some ''Watchlist''"
    by auto
  from t [of "''c''"] sample_recompute sample_sums
  have c: "map_option score (scores ?d' ''c'') = Some 100 \<and> map_option band (scores ?d' ''c'') = Some ''Hot''"
    by auto
  from a b c sample_sums show ?thesis by simp
qed

text \<open>
  Claim C7. In all tables that the script can produce from the empty schema, a company
  without a signal has no row in \<^verbatim>\<open>scores\<close>: the keys of \<^verbatim>\<open>scores\<close> are keys of
  \<^verbatim>\<open>signals\<close>. An instance is the company of a listing whose event insert failed: it
  is in \<^verbatim>\<open>companies\<close>, owns no signal and has no score.
\<close>

theorem no_score_without_signal:
  "reachable d \<longrightarrow>
     (\<not> owns_signal d k \<longrightarrow> scores d k = None) \<and>
     dom (scores d) \<subseteq> sig_company_key ` set (signals d)"
proof
  assume r: "reachable d"
  have "dom (scores d) \<subseteq> sig_company_key ` set (signals d)"
  proof
    fix x
    assume "x \<in> dom (scores d)"
    then have "owns_signal d x" using reachable_no_score [OF r, of x]
      by (cases "owns_signal d x") auto
    then show "x \<in> sig_company_key ` set (signals d)"
      by (auto simp: owns_signal_def list_ex_iff)
  qed
  with reachable_no_score [OF r, of k]
  show "(\<not> owns_signal d k \<longrightarrow> scores d k = None) \<and>
     dom (scores d) \<subseteq> sig_company_key ` set (signals d)" by simp
qed

theorem no_score_without_signal_witness:
  "reachable (run_db (projr (etl_regional sample_env empty_db))) \<and>
   map_option company_name
     (companies (run_db (projr (etl_regional sample_env empty_db))) (make_company_key ''Bar'' [] aragon)) =
     Some ''Bar'' \<and>
   \<not> owns_signal (run_db (projr (etl_regional sample_env empty_db))) (make_company_key ''Bar'' [] aragon) \<and>
   scores (run_db (projr (etl_regional sample_env empty_db))) (make_company_key ''Bar'' [] aragon) = None \<and>
   reachable (run_db (projr (etl_borme sample_env [] 50 empty_db))) \<and>
   dom (scores (run_db (projr (etl_borme sample_env [] 50 empty_db)))) = {make_company_key ''ACME SL'' [] []} \<and>
   set (map sig_company_key (signals (run_db (projr (etl_borme sample_env [] 50 empty_db))))) =
     {make_company_key ''ACME SL'' [] []}"
proof -
  let ?g = "run_db (projr (etl_regional sample_env empty_db))"
  let ?b = "run_db (projr (etl_borme sample_env [] 50 empty_db))"
  have rg: "reachable ?g"
    using reachable.init sample_regional_Inr by (rule reachable.regional)
  have rb: "reachable ?b"
    using reachable.init sample_borme_Inr by (rule reachable.borme)
  have o: "\<not> owns_signal ?g (make_company_key ''Bar'' [] aragon)"
    by (simp add: sample_regional_run owns_signal_def)
  from no_score_without_signal [of ?g "make_company_key ''Bar'' [] aragon"] rg o
  have "scores ?g (make_company_key ''Bar'' [] aragon) = None" by blast
  moreover have "map_option company_name (companies ?g (make_company_key ''Bar'' [] aragon)) = Some ''Bar''"
    by (simp add: sample_regional_run)
  moreover have "dom (scores ?b) = {make_company_key ''ACME SL'' [] []}"
    "set (map sig_company_key (signals ?b)) = {make_company_key ''ACME SL'' [] []}"
    by (simp_all add: sample_borme_run)
  ultimately show ?thesis using rg rb o by simp
qed

section \<open>The noise filter of the BORME pipeline\<close>

text \<open>
  Claim C1, as the code has it. For a document-derived record whose detector run yields
  three false flags the loop body ends at \<^verbatim>\<open>continue\<close>: no Event row is inserted and
  no signal is derived. An Event row is inserted only for a record that is not noise,
  and then exactly one.
\<close>

theorem borme_noise_skips_event:
  "(noise_doc env it \<longrightarrow>
      fst (borme_try env rd it d) = Inr Continue \<and>
      events (snd (borme_try env rd it d)) = events d \<and>
      signals (snd (borme_try env rd it d)) = signals d) \<and>
   (events (snd (borme_try env rd it d)) \<noteq> events d \<longrightarrow>
      \<not> noise_doc env it \<and>
      (\<exists>ev. events (snd (borme_try env rd it d)) = events d @ [(next_event_id d, ev)]))"
proof (intro conjI impI)
  assume "noise_doc env it"
  then have "borme_try env rd it d = (Inr Continue, d)" by (rule borme_try_noise)
  then show "fst (borme_try env rd it d) = Inr Continue"
    "events (snd (borme_try env rd it d)) = events d"
    "signals (snd (borme_try env rd it d)) = signals d" by simp_all
next
  assume a: "events (snd (borme_try env rd it d)) \<noteq> events d"
  obtain res d' where t: "borme_try env rd it d = (res, d')" by (cases "borme_try env rd it d")
  from borme_try_adds [OF t] a t
  show "\<not> noise_doc env it" by (auto simp: adds_def)
  from borme_try_adds [OF t] a t
  show "\<exists>ev. events (snd (borme_try env rd it d)) = events d @ [(next_event_id d, ev)]"
    by (auto simp: adds_def)
qed

theorem borme_noise_skips_event_witness:
  "noise_doc sample_env item_noise \<and>
   fst (borme_try sample_env ''20260203'' item_noise empty_db) = Inr Continue \<and>
   events (snd (borme_try sample_env ''20260203'' item_noise empty_db)) = [] \<and>
   signals (snd (borme_try sample_env ''20260203'' item_noise empty_db)) = [] \<and>
   \<not> noise_doc sample_env item_concurso \<and>
   length (events (snd (borme_try sample_env ''20260203'' item_concurso empty_db))) = 1"
proof -
  from borme_noise_skips_event [of sample_env item_noise "''20260203''" empty_db] sample_noise
  have "fst (borme_try sample_env ''20260203'' item_noise empty_db) = Inr Continue \<and>
   events (snd (borme_try sample_env ''20260203'' item_noise empty_db)) = [] \<and>
   signals (snd (borme_try sample_env ''20260203'' item_noise empty_db)) = []"
    by (simp add: empty_db_sel)
  moreover have "events (snd (borme_try sample_env ''20260203'' item_concurso empty_db)) \<noteq> events empty_db"
    by (simp add: sample_try_concurso empty_db_sel)
  with borme_noise_skips_event [of sample_env item_concurso "''20260203''" empty_db]
  have "\<not> noise_doc sample_env item_concurso" by blast
  ultimately show ?thesis using sample_noise by (simp add: sample_try_concurso)
qed

text \<open>
  Claim C1 as stated fails: the first sample document has no keyword, its record leaves
  the \<^verbatim>\<open>events\<close> table empty, and the run over the three sample documents ends with
  one event, the one of the third document.
\<close>

theorem borme_noise_event_missing:
  "url_pdf item_noise = Some ''https://boe.es/a1.pdf'' \<and>
   pdf_text_from_url sample_env ''https://boe.es/a1.pdf'' = Inr ''Nombramiento de administrador'' \<and>
   detect_signals (Some ''Nombramiento de administrador'') = \<lparr>pos = False, gov = False, neg = False\<rparr> \<and>
   borme_try sample_env ''20260203'' item_noise empty_db = (Inr Continue, empty_db) \<and>
   events empty_db = [] \<and>
   fetch_borme_sumario sample_env ''20260203'' = Inr [item_noise, item_broken, item_concurso] \<and>
   map (ev_url \<circ> snd) (events (run_db (projr (etl_borme sample_env [] 50 empty_db)))) =
     [''https://boe.es/a3.pdf'']"
  by (simp add: sample_try_noise sample_detect sample_borme_run)
    (simp add: item_noise_def sample_env_def sample_pdf_def sample_items_def empty_db_def)

text \<open>
  Claim C2. Processing a document-derived record whose text matches none of the three
  keyword classes leaves the tables, the counter and the printed lines as they were: no
  Company upsert, no Event insert. A run all of whose records are such commits the
  tables \<^verbatim>\<open>companies\<close>, \<^verbatim>\<open>events\<close> and \<^verbatim>\<open>signals\<close> unchanged and counts zero.
\<close>

theorem borme_noise_leaves_store:
  "(noise_doc env it \<longrightarrow> borme_step env rd it (d, n, out) = (d, n, out)) \<and>
   (etl_borme env rd0 cap d = Inr r \<and>
    fetch_borme_sumario env (run_date_of env rd0) = Inr items \<and>
    (\<forall>it\<in>set (borme_items cap items). noise_doc env it) \<longrightarrow>
      companies (run_db r) = companies d \<and> events (run_db r) = events d \<and>
      signals (run_db r) = signals d \<and> run_count r = 0)"
proof (intro conjI impI)
  assume "noise_doc env it"
  then show "borme_step env rd it (d, n, out) = (d, n, out)" by (rule borme_step_noise)
next
  assume a: "etl_borme env rd0 cap d = Inr r \<and>
    fetch_borme_sumario env (run_date_of env rd0) = Inr items \<and>
    (\<forall>it\<in>set (borme_items cap items). noise_doc env it)"
  then have e: "etl_borme env rd0 cap d = Inr r" by simp
  from e obtain items' d1 out1 where
    f: "fetch_borme_sumario env (run_date_of env rd0) = Inr items'"
    and l: "fold (borme_step env (run_date_of env rd0)) (borme_items cap items')
       (d, 0, [BormeStart (run_date_of env rd0) (length items') (length (filter has_pdf items')) cap]) =
     (d1, run_count r, out1)"
    and rc: "recompute_scores default_version d1 = Inr (run_db r)"
    by (rule etl_borme_Inr)
  from a f have "items' = items" by simp
  with a l have "d1 = d" "run_count r = 0" by (simp_all add: borme_fold_noise)
  with recompute_scores_frame [OF rc]
  show "companies (run_db r) = companies d" "events (run_db r) = events d"
    "signals (run_db r) = signals d" "run_count r = 0" by simp_all
qed

theorem borme_noise_leaves_store_witness:
  "borme_step sample_env ''20260203'' item_noise (empty_db, 0, []) = (empty_db, 0, []) \<and>
   companies (run_db (projr (etl_borme sample_env [] 1 empty_db))) = Map.empty \<and>
   events (run_db (projr (etl_borme sample_env [] 1 empty_db))) = [] \<and>
   signals (run_db (projr (etl_borme sample_env [] 1 empty_db))) = [] \<and>
   run_count (projr (etl_borme sample_env [] 1 empty_db)) = 0"
proof -
  let ?r = "projr (etl_borme sample_env [] 1 empty_db)"
  have r: "etl_borme sample_env [] 1 empty_db = Inr ?r"
    by (simp add: sample_borme_run_cap1)
  have f: "fetch_borme_sumario sample_env (run_date_of sample_env []) =
      Inr [item_noise, item_broken, item_concurso]"
    by (simp add: sample_env_sel sample_items_def)
  have n: "\<forall>it\<in>set (borme_items 1 [item_noise, item_broken, item_concurso]). noise_doc sample_env it"
    by (simp add: borme_items_def py_take_def sample_has_pdf sample_noise)
  note t = borme_noise_leaves_store [of sample_env item_noise "''20260203''" empty_db 0 "[]" "[]" 1 ?r
      "[item_noise, item_broken, item_concurso]"]
  from t sample_noise have "borme_step sample_env ''20260203'' item_noise (empty_db, 0, []) = (empty_db, 0, [])"
    by blast
  moreover from t r f n have "companies (run_db ?r) = companies empty_db \<and> events (run_db ?r) = events empty_db \<and>
      signals (run_db ?r) = signals empty_db \<and> run_count ?r = 0"
    by blast
  ultimately show ?thesis by (simp add: empty_db_def)
qed

section \<open>Listings\<close>



section \<open>Signals and the event of their record\<close>

text \<open>
  Claim C10. Whatever a BORME record or a listing appends to \<^verbatim>\<open>signals\<close>, that same
  BORME record or listing has appended exactly one row to \<^verbatim>\<open>events\<close>, under the
  identity that its insert returned, and every such signal carries that identity, the
  event's company key and the event's date. Hence every Signal row that a committed run of either pipeline
  has added agrees with an Event row added by that run.
\<close>

theorem signals_match_their_event:
  "(borme_try env rd it d = (res, d') \<longrightarrow>
      (\<exists>nev ns. adds d d' nev ns \<and>
         (\<forall>s\<in>set ns. \<exists>ev. nev = [(next_event_id d, ev)] \<and>
                            signal_matches_event s (next_event_id d, ev)))) \<and>
   (listing_body today source ccaa li d = (r, d'') \<longrightarrow>
      (\<exists>nev ns. adds d d'' nev ns \<and>
         (\<forall>s\<in>set ns. \<exists>ev. nev = [(next_event_id d, ev)] \<and>
                            signal_matches_event s (next_event_id d, ev)))) \<and>
   (etl_borme env rd0 cap d = Inr rn \<longrightarrow>
      (\<exists>nev ns. events (run_db rn) = events d @ nev \<and> signals (run_db rn) = signals d @ ns \<and>
         (\<forall>s\<in>set ns. \<exists>e\<in>set nev. signal_matches_event s e))) \<and>
   (etl_regional env d = Inr rn' \<longrightarrow>
      (\<exists>nev ns. events (run_db rn') = events d @ nev \<and> signals (run_db rn') = signals d @ ns \<and>
         (\<forall>s\<in>set ns. \<exists>e\<in>set nev. signal_matches_event s e)))"
proof (intro conjI impI)
  assume t: "borme_try env rd it d = (res, d')"
  from borme_try_adds [OF t]
  show "\<exists>nev ns. adds d d' nev ns \<and>
         (\<forall>s\<in>set ns. \<exists>ev. nev = [(next_event_id d, ev)] \<and>
                            signal_matches_event s (next_event_id d, ev))"
  proof
    assume "res \<noteq> Inr Processed \<and> adds d d' [] []"
    then show ?thesis by (intro exI [of _ "[]"]) simp
  next
    assume "\<not> noise_doc env it \<and>
          (\<exists>ev ns. adds d d' [(next_event_id d, ev)] ns \<and>
            (\<forall>s\<in>set ns. signal_matches_event s (next_event_id d, ev)) \<and>
            (res = Inr Processed \<longrightarrow> ns \<noteq> []))"
    then show ?thesis by blast
  qed
next
  assume b: "listing_body today source ccaa li d = (r, d'')"
  from listing_body_adds [OF b]
  show "\<exists>nev ns. adds d d'' nev ns \<and>
         (\<forall>s\<in>set ns. \<exists>ev. nev = [(next_event_id d, ev)] \<and>
                            signal_matches_event s (next_event_id d, ev))"
  proof
    assume "r = Some DbError \<and> \<not> listing_ok today source ccaa li \<and> adds d d'' [] []"
    then show ?thesis by (intro exI [of _ "[]"]) simp
  next
    let ?k = "make_company_key (listing_name li) [] ccaa"
    let ?ev = "listing_event today source ccaa (listing_name li) (li_url li) ?k"
    let ?s = "listing_signal today source ?k (next_event_id d)"
    assume "r = None \<and> listing_ok today source ccaa li \<and> adds d d'' [(next_event_id d, ?ev)] [?s]"
    then have "adds d d'' [(next_event_id d, ?ev)] [?s]" by simp
    moreover have "signal_matches_event ?s (next_event_id d, ?ev)"
      by (rule listing_signal_matches)
    ultimately show ?thesis
      by (intro exI [of _ "[(next_event_id d, ?ev)]"] exI [of _ "[?s]"]) simp
  qed
next
  assume "etl_borme env rd0 cap d = Inr rn"
  then obtain items d1 out1 where
    f: "fold (borme_step env (run_date_of env rd0)) (borme_items cap items)
       (d, 0, [BormeStart (run_date_of env rd0) (length items) (length (filter has_pdf items)) cap]) =
     (d1, run_count rn, out1)"
    and rc: "recompute_scores default_version d1 = Inr (run_db rn)"
    by (rule etl_borme_Inr)
  from borme_fold_extends [OF f] rc
  show "\<exists>nev ns. events (run_db rn) = events d @ nev \<and> signals (run_db rn) = signals d @ ns \<and>
         (\<forall>s\<in>set ns. \<exists>e\<in>set nev. signal_matches_event s e)"
    by (rule recompute_extends)
next
  assume "etl_regional env d = Inr rn'"
  then obtain d1 out1 where
    f: "fold (regional_step env (utc_today env)) REGIONAL_SOURCES (d, 0, []) = (d1, run_count rn', out1)"
    and rc: "recompute_scores default_version d1 = Inr (run_db rn')"
    unfolding etl_regional_def by (rule regional_run_Inr)
  from regional_fold_effect [OF f] have "extends d d1" by simp
  from this rc
  show "\<exists>nev ns. events (run_db rn') = events d @ nev \<and> signals (run_db rn') = signals d @ ns \<and>
         (\<forall>s\<in>set ns. \<exists>e\<in>set nev. signal_matches_event s e)"
    by (rule recompute_extends)
qed

theorem signals_match_their_event_witness:
  "map fst (events (snd (listing_body (2026, 2, 3) ''RelevoAragon'' aragon li_ok empty_db))) = [1] \<and>
   map sig_event_id (signals (snd (listing_body (2026, 2, 3) ''RelevoAragon'' aragon li_ok empty_db))) = [Some 1] \<and>
   signal_matches_event
     (hd (signals (snd (listing_body (2026, 2, 3) ''RelevoAragon'' aragon li_ok empty_db))))
     (hd (events (snd (listing_body (2026, 2, 3) ''RelevoAragon'' aragon li_ok empty_db)))) \<and>
   map fst (events (run_db (projr (etl_borme sample_env [] 50 empty_db)))) = [1] \<and>
   map sig_event_id (signals (run_db (projr (etl_borme sample_env [] 50 empty_db)))) = [Some 1] \<and>
   signal_matches_event
     (hd (signals (run_db (projr (etl_borme sample_env [] 50 empty_db)))))
     (hd (events (run_db (projr (etl_borme sample_env [] 50 empty_db)))))"
proof -
  let ?l = "listing_body (2026, 2, 3) ''RelevoAragon'' aragon li_ok empty_db"
  let ?b = "projr (etl_borme sample_env [] 50 empty_db)"
  note t = signals_match_their_event [of sample_env "''20260203''" item_noise empty_db "Inr Continue" empty_db
      "(2026, 2, 3)" "''RelevoAragon''" aragon li_ok "fst ?l" "snd ?l" "[]" 50 ?b ?b]
  have le: "map fst (events (snd ?l)) = [1]" "map sig_event_id (signals (snd ?l)) = [Some 1]"
    "length (signals (snd ?l)) = 1" "length (events (snd ?l)) = 1"
    by (simp_all add: listing_body_fits [OF sample_listing_fits] empty_db_sel listing_signal_def)
  have "?l = (fst ?l, snd ?l)" by simp
  with t have "\<exists>nev ns. adds empty_db (snd ?l) nev ns \<and>
         (\<forall>s\<in>set ns. \<exists>ev. nev = [(next_event_id empty_db, ev)] \<and>
                            signal_matches_event s (next_event_id empty_db, ev))"
    by blast
  then obtain nev where "\<exists>ns. adds empty_db (snd ?l) nev ns \<and>
         (\<forall>s\<in>set ns. \<exists>ev. nev = [(next_event_id empty_db, ev)] \<and>
                            signal_matches_event s (next_event_id empty_db, ev))" ..
  then obtain ns where c: "adds empty_db (snd ?l) nev ns \<and>
         (\<forall>s\<in>set ns. \<exists>ev. nev = [(next_event_id empty_db, ev)] \<and>
                            signal_matches_event s (next_event_id empty_db, ev))" ..
  from c have a: "adds empty_db (snd ?l) nev ns" by (rule conjunct1)
  from c have m: "\<forall>s\<in>set ns. \<exists>ev. nev = [(next_event_id empty_db, ev)] \<and>
              signal_matches_event s (next_event_id empty_db, ev)" by (rule conjunct2)
  from a have "events (snd ?l) = nev" "signals (snd ?l) = ns" by (simp_all add: adds_def empty_db_sel)
  with m le have 1: "signal_matches_event (hd (signals (snd ?l))) (hd (events (snd ?l)))"
    by (cases ns) auto
  have be: "map fst (events (run_db ?b)) = [1]" "map sig_event_id (signals (run_db ?b)) = [Some 1]"
    "length (signals (run_db ?b)) = 1" "length (events (run_db ?b)) = 1"
    by (simp_all add: sample_borme_run)
  from t sample_borme_Inr
  have "\<exists>nev ns. events (run_db ?b) = events empty_db @ nev \<and> signals (run_db ?b) = signals empty_db @ ns \<and>
         (\<forall>s\<in>set ns. \<exists>e\<in>set nev. signal_matches_event s e)"
    by blast
  then obtain nev' where "\<exists>ns. events (run_db ?b) = events empty_db @ nev' \<and> signals (run_db ?b) = signals empty_db @ ns \<and>
         (\<forall>s\<in>set ns. \<exists>e\<in>set nev'. signal_matches_event s e)" ..
  then obtain ns' where c': "events (run_db ?b) = events empty_db @ nev' \<and> signals (run_db ?b) = signals empty_db @ ns' \<and>
         (\<forall>s\<in>set ns'. \<exists>e\<in>set nev'. signal_matches_event s e)" ..
  from c' have m': "\<forall>s\<in>set ns'. \<exists>e\<in>set nev'. signal_matches_event s e" by blast
  from c' have "events (run_db ?b) = events empty_db @ nev'" "signals (run_db ?b) = signals empty_db @ ns'"
    by blast+
  then have "events (run_db ?b) = nev'" "signals (run_db ?b) = ns'" by (simp_all add: empty_db_sel)
  with m' be have 2: "signal_matches_event (hd (signals (run_db ?b))) (hd (events (run_db ?b)))"
    by (cases ns'; cases nev') auto
  from le be 1 2 show ?thesis by simp
qed

section \<open>Failures of single records\<close>




end
